theory Spec2Isabelle
  imports Complex_Main "HOL-Library.Multiset"
begin

section \<open>JavaScript values\<close>

text \<open>
  The updater is \<^verbatim>\<open>scripts/update_lotto645.mjs\<close> (the multi-source version with 2-of-3
  consensus). It works on JavaScript numbers and on values produced by \<^verbatim>\<open>JSON.parse\<close>.

  A JavaScript number is \<open>NaN\<close>, an infinity or a finite value. Finite values are
  idealised as rationals: the program only subtracts, compares and increments, which is
  exact on the small integers that draw numbers are. The two zeros are identified.
\<close>

datatype jsnum = NaN | NegInf | Fin rat | PosInf

fun isFinite :: "jsnum \<Rightarrow> bool" where
  "isFinite (Fin _) = True"
| "isFinite _ = False"

fun js_sub :: "jsnum \<Rightarrow> jsnum \<Rightarrow> jsnum" where
  "js_sub NaN _ = NaN"
| "js_sub _ NaN = NaN"
| "js_sub (Fin a) (Fin b) = Fin (a - b)"
| "js_sub (Fin _) PosInf = NegInf"
| "js_sub (Fin _) NegInf = PosInf"
| "js_sub PosInf PosInf = NaN"
| "js_sub PosInf _ = PosInf"
| "js_sub NegInf NegInf = NaN"
| "js_sub NegInf _ = NegInf"

fun js_add :: "jsnum \<Rightarrow> jsnum \<Rightarrow> jsnum" where
  "js_add NaN _ = NaN"
| "js_add _ NaN = NaN"
| "js_add (Fin a) (Fin b) = Fin (a + b)"
| "js_add (Fin _) PosInf = PosInf"
| "js_add (Fin _) NegInf = NegInf"
| "js_add PosInf NegInf = NaN"
| "js_add PosInf _ = PosInf"
| "js_add NegInf PosInf = NaN"
| "js_add NegInf _ = NegInf"

text \<open>\<^verbatim>\<open>a < b\<close> on numbers; every comparison with \<open>NaN\<close> is false.\<close>

fun js_lt :: "jsnum \<Rightarrow> jsnum \<Rightarrow> bool" where
  "js_lt NaN _ = False"
| "js_lt _ NaN = False"
| "js_lt (Fin a) (Fin b) = (a < b)"
| "js_lt (Fin _) PosInf = True"
| "js_lt (Fin _) NegInf = False"
| "js_lt PosInf _ = False"
| "js_lt NegInf NegInf = False"
| "js_lt NegInf _ = True"

definition js_le :: "jsnum \<Rightarrow> jsnum \<Rightarrow> bool" where
  "js_le a b = (a \<noteq> NaN \<and> b \<noteq> NaN \<and> \<not> js_lt b a)"

definition js_gt :: "jsnum \<Rightarrow> jsnum \<Rightarrow> bool" where
  "js_gt a b = js_lt b a"

definition js_ge :: "jsnum \<Rightarrow> jsnum \<Rightarrow> bool" where
  "js_ge a b = js_le b a"

text \<open>\<^verbatim>\<open>Math.max(...xs)\<close>: \<open>-Infinity\<close> on no argument, \<open>NaN\<close> as soon as one argument is.\<close>

fun js_max2 :: "jsnum \<Rightarrow> jsnum \<Rightarrow> jsnum" where
  "js_max2 NaN _ = NaN"
| "js_max2 _ NaN = NaN"
| "js_max2 a b = (if js_lt a b then b else a)"

definition Math_max :: "jsnum list \<Rightarrow> jsnum" where
  "Math_max xs = foldl js_max2 NegInf xs"

text \<open>
  \<^verbatim>\<open>Array.prototype.sort(cmp)\<close> is stable; a comparator result that is \<open>NaN\<close> counts as
  zero. The model is the stable insertion sort: \<open>x\<close> moves behind \<open>y\<close> only when
  \<open>cmp x y > 0\<close>. For a consistent comparator every stable sort returns this list; for an
  inconsistent one (a \<open>NaN\<close> among ordinary numbers) ECMAScript leaves the order to the
  engine and the model fixes one.
\<close>

fun insert_by :: "('a \<Rightarrow> 'a \<Rightarrow> jsnum) \<Rightarrow> 'a \<Rightarrow> 'a list \<Rightarrow> 'a list" where
  "insert_by cmp x [] = [x]"
| "insert_by cmp x (y # ys) =
     (if js_gt (cmp x y) (Fin 0) then y # insert_by cmp x ys else x # y # ys)"

definition array_sort :: "('a \<Rightarrow> 'a \<Rightarrow> jsnum) \<Rightarrow> 'a list \<Rightarrow> 'a list" where
  "array_sort cmp xs = foldr (insert_by cmp) xs []"

text \<open>
  A \<^verbatim>\<open>Map\<close> keeps its entries in insertion order; \<^verbatim>\<open>set\<close> on a key already present
  replaces the value in place. Keys are compared by SameValueZero, under which \<open>NaN\<close>
  equals itself, as it does in HOL.
\<close>

fun map_has :: "('k \<times> 'v) list \<Rightarrow> 'k \<Rightarrow> bool" where
  "map_has [] k = False"
| "map_has ((k', v) # m) k = (k' = k \<or> map_has m k)"

fun map_get :: "('k \<times> 'v) list \<Rightarrow> 'k \<Rightarrow> 'v option" where
  "map_get [] k = None"
| "map_get ((k', v) # m) k = (if k' = k then Some v else map_get m k)"

fun map_set :: "('k \<times> 'v) list \<Rightarrow> 'k \<Rightarrow> 'v \<Rightarrow> ('k \<times> 'v) list" where
  "map_set [] k v = [(k, v)]"
| "map_set ((k', v') # m) k v =
     (if k' = k then (k, v) # m else (k', v') # map_set m k v)"

text \<open>
  Values returned by \<^verbatim>\<open>JSON.parse\<close>. An object is the list of its own properties (keys
  distinct); a read of an absent property gives \<^verbatim>\<open>undefined\<close>, which is \<open>None\<close>.
  A string is a list of characters, one per code unit.
\<close>

datatype json =
    JNull
  | JBool bool
  | JNum jsnum
  | JStr string
  | JArr "json list"
  | JObj "(string \<times> json) list"

text \<open>
  Three functions of the language are left to the host: reading a string as a number
  (\<^verbatim>\<open>Number("12")\<close>), printing a number (\<^verbatim>\<open>String(12)\<close>) and \<^verbatim>\<open>Math.pow\<close>, whose results
  are rounded. Every result below holds for all hosts.
\<close>

record host =
  StringToNumber :: "string \<Rightarrow> jsnum"
  NumberToString :: "jsnum \<Rightarrow> string"
  Math_pow :: "jsnum \<Rightarrow> jsnum \<Rightarrow> jsnum"

fun join :: "string \<Rightarrow> string list \<Rightarrow> string" where
  "join sep [] = []"
| "join sep [s] = s"
| "join sep (s # t # ss) = s @ sep @ join sep (t # ss)"

text \<open>
  What the program can throw. A failed \<^verbatim>\<open>fetchJsonGuarded\<close> (network error, timeout,
  non-2xx status, HTML body or unparsable text, after its retries) is \<open>FetchFailed\<close>;
  the other constructors are the \<^verbatim>\<open>throw\<close> statements of the script and the
  \<^verbatim>\<open>TypeError\<close> that the language raises: on a read through \<^verbatim>\<open>undefined\<close> and on the
  conversion of an object that has no usable \<^verbatim>\<open>toString\<close>.
\<close>

datatype error =
    TypeError
  | FetchFailed
  | LatestInvalid string
  | AllJsonEmpty string
  | AllJsonParsedZero string
  | DrawInvalid string jsnum
  | DrawFetchFailed jsnum
  | AllFetchFailed
  | NoSourcesNoCache
  | NoDrawsAfterUpdate

text \<open>
  A callback applied to each element of an array in turn (\<^verbatim>\<open>map\<close>, \<^verbatim>\<open>join\<close>): the first
  element on which it throws ends the whole call with that exception.
\<close>

fun collect :: "(error + 'a) list \<Rightarrow> error + 'a list" where
  "collect [] = Inr []"
| "collect (r # rs) =
     (case r of
        Inl e \<Rightarrow> Inl e
      | Inr x \<Rightarrow> (case collect rs of Inl e \<Rightarrow> Inl e | Inr xs \<Rightarrow> Inr (x # xs)))"

text \<open>
  \<^verbatim>\<open>String(v)\<close>. An array prints its elements joined by commas, \<^verbatim>\<open>null\<close> as nothing.
  An object is converted through its \<^verbatim>\<open>toString\<close> and \<^verbatim>\<open>valueOf\<close> properties. A parsed
  object inherits both from \<^verbatim>\<open>Object.prototype\<close>: the inherited \<^verbatim>\<open>valueOf\<close> returns the
  object itself, which is no primitive, and the inherited \<^verbatim>\<open>toString\<close> returns
  \<^verbatim>\<open>[object Object]\<close>. An own property hides the inherited one, and an own property of
  a parsed object is never callable, so it is skipped. Hence an object with an own
  property named \<^verbatim>\<open>toString\<close> has no conversion left and the language throws a
  \<^verbatim>\<open>TypeError\<close>, whatever its \<^verbatim>\<open>valueOf\<close> is; every other object prints as
  \<^verbatim>\<open>[object Object]\<close>. A parsed array has no own property besides its elements.
\<close>

fun ToString :: "host \<Rightarrow> json \<Rightarrow> error + string" where
  "ToString H JNull = Inr ''null''"
| "ToString H (JBool b) = Inr (if b then ''true'' else ''false'')"
| "ToString H (JNum x) = Inr (NumberToString H x)"
| "ToString H (JStr s) = Inr s"
| "ToString H (JArr xs) =
     map_sum id (join '','') (collect (map (\<lambda>x. if x = JNull then Inr [] else ToString H x) xs))"
| "ToString H (JObj kvs) =
     (if map_of kvs ''toString'' = None then Inr ''[object Object]'' else Inl TypeError)"

text \<open>
  \<^verbatim>\<open>Number(v)\<close>; \<open>None\<close> is \<^verbatim>\<open>undefined\<close>. An array is printed first, then read. An
  object is converted as above, \<^verbatim>\<open>valueOf\<close> first: it throws when it has an own property
  named \<^verbatim>\<open>toString\<close>, and otherwise \<^verbatim>\<open>[object Object]\<close> reads as \<open>NaN\<close>.
\<close>

fun Number_js :: "host \<Rightarrow> json option \<Rightarrow> error + jsnum" where
  "Number_js H None = Inr NaN"
| "Number_js H (Some JNull) = Inr (Fin 0)"
| "Number_js H (Some (JBool b)) = Inr (if b then Fin 1 else Fin 0)"
| "Number_js H (Some (JNum x)) = Inr x"
| "Number_js H (Some (JStr s)) = Inr (StringToNumber H s)"
| "Number_js H (Some (JArr xs)) = map_sum id (StringToNumber H) (ToString H (JArr xs))"
| "Number_js H (Some (JObj kvs)) =
     (if map_of kvs ''toString'' = None then Inr NaN else Inl TypeError)"

fun truthy :: "json \<Rightarrow> bool" where
  "truthy JNull = False"
| "truthy (JBool b) = b"
| "truthy (JNum x) = (x \<noteq> NaN \<and> x \<noteq> Fin 0)"
| "truthy (JStr s) = (s \<noteq> [])"
| "truthy (JArr _) = True"
| "truthy (JObj _) = True"

text \<open>\<^verbatim>\<open>item?.name\<close>: only an object has the properties the program reads.\<close>

fun get_prop :: "json \<Rightarrow> string \<Rightarrow> json option" where
  "get_prop (JObj kvs) name = map_of kvs name"
| "get_prop _ name = None"

section \<open>The record normalizer\<close>

record draw =
  drwNo :: jsnum
  date :: string
  numbers :: "jsnum list"
  bonus :: jsnum

text \<open>\<^verbatim>\<open>toYmd\<close>; \<open>None\<close> is \<^verbatim>\<open>null\<close>. A falsy argument is answered before it is printed.\<close>

definition toYmd :: "host \<Rightarrow> json option \<Rightarrow> error + string option" where
  "toYmd H isoOrYmd =
     (case isoOrYmd of
        None \<Rightarrow> Inr None
      | Some v \<Rightarrow>
          if \<not> truthy v then Inr None
          else (case ToString H v of
                  Inl e \<Rightarrow> Inl e
                | Inr s \<Rightarrow> Inr (Some (if length s \<ge> 10 then take 10 s else s))))"

text \<open>\<^verbatim>\<open>Array.isArray(item?.numbers) ? item.numbers.map(Number) : []\<close>\<close>

definition numbers_of :: "host \<Rightarrow> json \<Rightarrow> error + jsnum list" where
  "numbers_of H item =
     (case get_prop item ''numbers'' of
        Some (JArr xs) \<Rightarrow> collect (map (\<lambda>x. Number_js H (Some x)) xs)
      | _ \<Rightarrow> Inr [])"

text \<open>
  \<^verbatim>\<open>normalizeDraw\<close>. The four conversions run first, in the order of the source, and each
  can throw; the guard comes after them. \<open>Inr None\<close> is \<^verbatim>\<open>null\<close>.
\<close>

definition normalizeDraw :: "host \<Rightarrow> json \<Rightarrow> error + draw option" where
  "normalizeDraw H item =
     (case Number_js H (get_prop item ''draw_no'') of
        Inl e \<Rightarrow> Inl e
      | Inr no \<Rightarrow>
     (case numbers_of H item of
        Inl e \<Rightarrow> Inl e
      | Inr nums \<Rightarrow>
     (case Number_js H (get_prop item ''bonus_no'') of
        Inl e \<Rightarrow> Inl e
      | Inr bn \<Rightarrow>
     (case toYmd H (get_prop item ''date'') of
        Inl e \<Rightarrow> Inl e
      | Inr ymd \<Rightarrow>
          (case ymd of
             None \<Rightarrow> Inr None
           | Some dt \<Rightarrow>
               if \<not> isFinite no \<or> length nums \<noteq> 6 \<or> dt = [] then Inr None
               else Inr (Some \<lparr>drwNo = no, date = dt,
                                numbers = array_sort js_sub nums, bonus = bn\<rparr>))))))"

text \<open>\<^verbatim>\<open>drawSig\<close>: draw number, main numbers, bonus and date in one string.\<close>

definition drawSig :: "host \<Rightarrow> draw \<Rightarrow> string" where
  "drawSig H d =
     NumberToString H (drwNo d) @ ''|'' @ join '','' (map (NumberToString H) (numbers d))
       @ ''|b'' @ NumberToString H (bonus d) @ ''|'' @ date d"

text \<open>
  The DrawRecord invariant of the data model: six pairwise distinct main numbers, each
  an integer from 1 to 45, in ascending order, and a bonus that is an integer from 1 to 45.
\<close>

definition in_1_45 :: "jsnum \<Rightarrow> bool" where
  "in_1_45 x = (case x of Fin q \<Rightarrow> of_int \<lfloor>q\<rfloor> = q \<and> 1 \<le> q \<and> q \<le> 45 | _ \<Rightarrow> False)"

definition draw_invariant :: "draw \<Rightarrow> bool" where
  "draw_invariant d =
     (length (numbers d) = 6 \<and> distinct (numbers d) \<and> list_all in_1_45 (numbers d)
      \<and> sorted_wrt js_le (numbers d) \<and> in_1_45 (bonus d))"

text \<open>
  The values that cannot be converted: an object with an own property named
  \<^verbatim>\<open>toString\<close>, and an array that holds such a value at any depth.
\<close>

fun unprintable :: "json \<Rightarrow> bool" where
  "unprintable (JObj kvs) = (map_of kvs ''toString'' \<noteq> None)"
| "unprintable (JArr xs) = (\<exists>x\<in>set xs. unprintable x)"
| "unprintable _ = False"

text \<open>
  The payloads on which \<^verbatim>\<open>normalizeDraw\<close> throws: one of the values it converts cannot
  be converted. The date is converted only when it is truthy, the entries of
  \<^verbatim>\<open>numbers\<close> only when \<^verbatim>\<open>numbers\<close> is an array.
\<close>

definition throws_on :: "json \<Rightarrow> bool" where
  "throws_on item =
     ((\<exists>v. get_prop item ''draw_no'' = Some v \<and> unprintable v) \<or>
      (\<exists>xs. get_prop item ''numbers'' = Some (JArr xs) \<and> (\<exists>x\<in>set xs. unprintable x)) \<or>
      (\<exists>v. get_prop item ''bonus_no'' = Some v \<and> unprintable v) \<or>
      (\<exists>v. get_prop item ''date'' = Some v \<and> truthy v \<and> unprintable v))"

text \<open>
  The payloads that pass the guard of \<^verbatim>\<open>normalizeDraw\<close>: a draw number that converts to
  a finite number, an array of exactly six entries, and a truthy date that prints as a
  non-empty string.
\<close>

definition passes_guard :: "host \<Rightarrow> json \<Rightarrow> bool" where
  "passes_guard H item =
     ((\<exists>n. Number_js H (get_prop item ''draw_no'') = Inr n \<and> isFinite n) \<and>
      (\<exists>xs. get_prop item ''numbers'' = Some (JArr xs) \<and> length xs = 6) \<and>
      (\<exists>v s. get_prop item ''date'' = Some v \<and> truthy v \<and> ToString H v = Inr s \<and> s \<noteq> []))"

subsection \<open>Numbers and sorting\<close>

lemma js_gt_sub: "js_gt (js_sub x y) (Fin 0) = js_lt y x"
  by (cases x; cases y) (auto simp: js_gt_def)

lemma js_le_trans: "js_le a b \<Longrightarrow> js_le b c \<Longrightarrow> js_le a c"
  by (cases a; cases b; cases c) (auto simp: js_le_def)

lemma js_lt_le: "js_lt a b \<Longrightarrow> js_le a b"
  by (cases a; cases b) (auto simp: js_le_def)

lemma mset_insert_by: "mset (insert_by cmp x ys) = add_mset x (mset ys)"
  by (induction ys) auto

lemma mset_array_sort: "mset (array_sort cmp xs) = mset xs"
  by (induction xs) (auto simp: array_sort_def mset_insert_by)

lemma set_array_sort: "set (array_sort cmp xs) = set xs"
  by (metis mset_array_sort set_mset_mset)

lemma length_array_sort: "length (array_sort cmp xs) = length xs"
  by (metis mset_array_sort size_mset)

lemma set_insert_by: "set (insert_by cmp x ys) = insert x (set ys)"
  by (metis mset_insert_by set_mset_add_mset_insert set_mset_mset)

lemma sorted_insert_by_sub:
  "x \<noteq> NaN \<Longrightarrow> NaN \<notin> set ys \<Longrightarrow> sorted_wrt js_le ys
     \<Longrightarrow> sorted_wrt js_le (insert_by js_sub x ys)"
proof (induction ys)
  case Nil
  then show ?case by simp
next
  case (Cons y ys)
  show ?case
  proof (cases "js_lt y x")
    case True
    then show ?thesis using Cons by (auto simp: js_gt_sub set_insert_by js_lt_le)
  next
    case False
    then have xy: "js_le x y" using Cons.prems by (auto simp: js_le_def)
    then have "\<forall>z\<in>set ys. js_le x z" using Cons.prems by (auto intro: js_le_trans)
    then show ?thesis using Cons.prems False xy by (simp add: js_gt_sub)
  qed
qed

lemma sorted_array_sort_sub:
  "NaN \<notin> set xs \<Longrightarrow> sorted_wrt js_le (array_sort js_sub xs)"
proof (induction xs)
  case Nil
  then show ?case by (simp add: array_sort_def)
next
  case (Cons x xs)
  then have "sorted_wrt js_le (insert_by js_sub x (array_sort js_sub xs))"
    by (intro sorted_insert_by_sub) (auto simp: set_array_sort)
  then show ?case by (simp add: array_sort_def)
qed

subsection \<open>Conversions that throw\<close>

lemma collect_map_Inr: "collect (map Inr xs) = Inr xs"
  by (induction xs) auto

lemma collect_Inr: "collect rs = Inr xs \<Longrightarrow> rs = map Inr xs"
  by (induction rs arbitrary: xs) (auto split: sum.splits)

lemma collect_Inr_iff: "collect rs = Inr xs \<longleftrightarrow> rs = map Inr xs"
  using collect_Inr collect_map_Inr by metis

lemma isl_collect: "isl (collect rs) \<longleftrightarrow> (\<exists>r\<in>set rs. isl r)"
  by (induction rs) (auto split: sum.splits)

lemma collect_error: "collect rs = Inl e \<Longrightarrow> Inl e \<in> set rs"
  by (induction rs) (auto split: sum.splits)

lemma isl_map_sum: "isl (map_sum f g r) = isl r"
  by (cases r) auto

lemma map_sum_error: "map_sum id g r = Inl e \<Longrightarrow> r = Inl e"
  by (cases r) auto

lemma ToString_error: "ToString H v = Inl e \<Longrightarrow> e = TypeError"
proof (induction H v rule: ToString.induct)
  case (5 H xs)
  from "5.prems" have "collect (map (\<lambda>x. if x = JNull then Inr [] else ToString H x) xs) = Inl e"
    by (simp add: map_sum_error)
  then have "Inl e \<in> set (map (\<lambda>x. if x = JNull then Inr [] else ToString H x) xs)"
    by (rule collect_error)
  then obtain x where "x \<in> set xs" "x \<noteq> JNull" "ToString H x = Inl e"
    by (auto split: if_splits)
  then show ?case using "5.IH" by blast
qed (auto split: if_splits)

lemma isl_ToString: "isl (ToString H v) = unprintable v"
proof (induction H v rule: ToString.induct)
  case (5 H xs)
  have "isl (ToString H (JArr xs)) = (\<exists>x\<in>set xs. x \<noteq> JNull \<and> isl (ToString H x))"
    by (auto simp: isl_map_sum isl_collect)
  also have "\<dots> = (\<exists>x\<in>set xs. x \<noteq> JNull \<and> unprintable x)" using "5.IH" by blast
  also have "\<dots> = (\<exists>x\<in>set xs. unprintable x)"
  proof -
    have "unprintable x \<Longrightarrow> x \<noteq> JNull" for x by auto
    then show ?thesis by blast
  qed
  finally show ?case by simp
qed auto

lemma Number_error:
  assumes a: "Number_js H x = Inl e"
  shows "e = TypeError"
proof (cases x)
  case None
  then show ?thesis using a by simp
next
  case (Some v)
  show ?thesis
  proof (cases v)
    case (JArr xs)
    then have "ToString H (JArr xs) = Inl e" using a Some by (simp add: map_sum_error)
    then show ?thesis by (rule ToString_error)
  qed (use a Some in \<open>auto split: if_splits\<close>)
qed

lemma isl_Number: "isl (Number_js H x) = (\<exists>v. x = Some v \<and> unprintable v)"
proof (cases x)
  case None
  then show ?thesis by simp
next
  case (Some v)
  show ?thesis
  proof (cases v)
    case (JArr xs)
    have "isl (Number_js H (Some (JArr xs))) = isl (ToString H (JArr xs))"
      by (simp only: Number_js.simps isl_map_sum)
    then show ?thesis using Some JArr by (simp only: isl_ToString) simp
  qed (use Some in auto)
qed

lemma numbers_of_error:
  assumes a: "numbers_of H item = Inl e"
  shows "e = TypeError"
proof -
  from a obtain xs where "collect (map (\<lambda>x. Number_js H (Some x)) xs) = Inl e"
    by (auto simp: numbers_of_def split: option.splits json.splits)
  then have "Inl e \<in> set (map (\<lambda>x. Number_js H (Some x)) xs)" by (rule collect_error)
  then obtain x where "Number_js H (Some x) = Inl e" by auto
  then show ?thesis by (rule Number_error)
qed

lemma isl_numbers_of:
  "isl (numbers_of H item) =
     (\<exists>xs. get_prop item ''numbers'' = Some (JArr xs) \<and> (\<exists>x\<in>set xs. unprintable x))"
  by (auto simp: numbers_of_def isl_collect isl_Number split: option.splits json.splits)

lemma numbers_of_length:
  "numbers_of H item = Inr ns \<Longrightarrow>
     length ns = 6 \<longleftrightarrow> (\<exists>xs. get_prop item ''numbers'' = Some (JArr xs) \<and> length xs = 6)"
proof -
  assume a: "numbers_of H item = Inr ns"
  show ?thesis
  proof (cases "\<exists>xs. get_prop item ''numbers'' = Some (JArr xs)")
    case True
    then obtain xs where xs: "get_prop item ''numbers'' = Some (JArr xs)" by blast
    then have "collect (map (\<lambda>x. Number_js H (Some x)) xs) = Inr ns"
      using a by (simp add: numbers_of_def)
    then have "map (\<lambda>x. Number_js H (Some x)) xs = map Inr ns" by (simp only: collect_Inr_iff)
    then have "length xs = length ns" by (metis length_map)
    then show ?thesis using xs by simp
  next
    case False
    then have "ns = []" using a by (auto simp: numbers_of_def split: option.splits json.splits)
    then show ?thesis using False by simp
  qed
qed

lemma toYmd_error: "toYmd H x = Inl e \<Longrightarrow> e = TypeError"
  by (auto simp: toYmd_def split: option.splits if_splits sum.splits dest: ToString_error)

lemma isl_toYmd: "isl (toYmd H x) = (\<exists>v. x = Some v \<and> truthy v \<and> unprintable v)"
proof (cases x)
  case None
  then show ?thesis by (simp add: toYmd_def)
next
  case (Some v)
  have "isl (toYmd H (Some v)) = (truthy v \<and> isl (ToString H v))"
    by (cases "ToString H v") (auto simp: toYmd_def)
  then show ?thesis using Some by (simp add: isl_ToString)
qed

lemma toYmd_nonempty:
  "toYmd H x = Inr r \<Longrightarrow>
     (\<exists>dt. r = Some dt \<and> dt \<noteq> []) \<longleftrightarrow>
     (\<exists>v s. x = Some v \<and> truthy v \<and> ToString H v = Inr s \<and> s \<noteq> [])"
  by (auto simp: toYmd_def split: option.splits if_splits sum.splits)

subsection \<open>What the normalizer accepts\<close>

lemma in_1_45_not_NaN: "in_1_45 x \<Longrightarrow> x \<noteq> NaN"
  by (auto simp: in_1_45_def)

lemma normalizeDraw_Some:
  "normalizeDraw H item = Inr (Some d) \<longleftrightarrow>
     (\<exists>n ns b dt.
        Number_js H (get_prop item ''draw_no'') = Inr n \<and> numbers_of H item = Inr ns \<and>
        Number_js H (get_prop item ''bonus_no'') = Inr b \<and>
        toYmd H (get_prop item ''date'') = Inr (Some dt) \<and>
        dt \<noteq> [] \<and> isFinite n \<and> length ns = 6 \<and>
        d = \<lparr>drwNo = n, date = dt, numbers = array_sort js_sub ns, bonus = b\<rparr>)"
  by (auto simp: normalizeDraw_def split: sum.splits option.splits)

lemma normalizeDraw_finite: "normalizeDraw H item = Inr (Some d) \<Longrightarrow> isFinite (drwNo d)"
  unfolding normalizeDraw_Some by auto

lemma normalizeDraw_error: "normalizeDraw H item = Inl e \<Longrightarrow> e = TypeError"
  by (auto simp: normalizeDraw_def split: sum.splits option.splits if_splits
      dest: Number_error numbers_of_error toYmd_error)

lemma isl_normalizeDraw: "isl (normalizeDraw H item) = throws_on item"
proof -
  have "isl (normalizeDraw H item) =
      (isl (Number_js H (get_prop item ''draw_no'')) \<or> isl (numbers_of H item) \<or>
       isl (Number_js H (get_prop item ''bonus_no'')) \<or> isl (toYmd H (get_prop item ''date'')))"
    by (auto simp: normalizeDraw_def split: sum.splits option.splits)
  then show ?thesis
    unfolding isl_Number isl_numbers_of isl_toYmd throws_on_def .
qed

lemma normalizeDraw_guard:
  assumes "\<not> throws_on item"
  shows "(\<exists>d. normalizeDraw H item = Inr (Some d)) = passes_guard H item"
proof -
  from assms have a: "\<not> isl (Number_js H (get_prop item ''draw_no''))"
    "\<not> isl (numbers_of H item)" "\<not> isl (Number_js H (get_prop item ''bonus_no''))"
    "\<not> isl (toYmd H (get_prop item ''date''))"
    unfolding isl_Number isl_numbers_of isl_toYmd throws_on_def by blast+
  then obtain n ns b r where v: "Number_js H (get_prop item ''draw_no'') = Inr n"
    "numbers_of H item = Inr ns" "Number_js H (get_prop item ''bonus_no'') = Inr b"
    "toYmd H (get_prop item ''date'') = Inr r"
    by (metis sum.collapse(2))
  have "(\<exists>d. normalizeDraw H item = Inr (Some d)) =
      (isFinite n \<and> length ns = 6 \<and> (\<exists>dt. r = Some dt \<and> dt \<noteq> []))"
    unfolding normalizeDraw_Some using v by auto
  also have "\<dots> = passes_guard H item"
    unfolding passes_guard_def using v(1) numbers_of_length[OF v(2)] toYmd_nonempty[OF v(4)]
    by simp
  finally show ?thesis .
qed

text \<open>
  Claim C5, as the code has it. \<^verbatim>\<open>normalizeDraw\<close> throws exactly when one of the values
  it converts (the draw number, an entry of the \<^verbatim>\<open>numbers\<close> array, the bonus, a truthy
  date) cannot be converted, and what it throws is a \<^verbatim>\<open>TypeError\<close>. Otherwise it returns
  a record exactly when the draw number converts to a finite number, \<^verbatim>\<open>numbers\<close> is an
  array of exactly six entries and the date is truthy and prints as a non-empty string;
  in every remaining case it returns \<^verbatim>\<open>null\<close>. A record it returns carries the converted
  draw number and bonus, the first ten characters of the printed date, and six main
  numbers, in ascending order whenever none of them is \<open>NaN\<close>. It does not ask the draw
  number to be a positive integer, the six entries or the bonus to be finite, or the
  date to have the form YYYY-MM-DD.
\<close>

theorem normalizeDraw_accepts:
  "((\<exists>e. normalizeDraw H item = Inl e) \<longleftrightarrow> throws_on item) \<and>
   (\<forall>e. normalizeDraw H item = Inl e \<longrightarrow> e = TypeError) \<and>
   ((\<exists>d. normalizeDraw H item = Inr (Some d)) \<longleftrightarrow> \<not> throws_on item \<and> passes_guard H item) \<and>
   (normalizeDraw H item = Inr None \<longleftrightarrow> \<not> throws_on item \<and> \<not> passes_guard H item) \<and>
   (\<forall>d. normalizeDraw H item = Inr (Some d) \<longrightarrow>
      Number_js H (get_prop item ''draw_no'') = Inr (drwNo d) \<and>
      Number_js H (get_prop item ''bonus_no'') = Inr (bonus d) \<and>
      (\<exists>v s. get_prop item ''date'' = Some v \<and> ToString H v = Inr s \<and> date d = take 10 s) \<and>
      length (numbers d) = 6 \<and>
      (NaN \<notin> set (numbers d) \<longrightarrow> sorted_wrt js_le (numbers d)))"
proof -
  have t: "(\<exists>e. normalizeDraw H item = Inl e) \<longleftrightarrow> throws_on item"
  proof -
    have "(\<exists>e. normalizeDraw H item = Inl e) = isl (normalizeDraw H item)"
      by (cases "normalizeDraw H item") auto
    then show ?thesis by (simp only: isl_normalizeDraw)
  qed
  have e: "\<forall>e. normalizeDraw H item = Inl e \<longrightarrow> e = TypeError"
    using normalizeDraw_error by blast
  have s: "(\<exists>d. normalizeDraw H item = Inr (Some d)) \<longleftrightarrow> \<not> throws_on item \<and> passes_guard H item"
  proof (cases "throws_on item")
    case True
    then obtain e where "normalizeDraw H item = Inl e" using t by blast
    then show ?thesis using True by simp
  next
    case False
    then show ?thesis using normalizeDraw_guard[OF False, of H] by simp
  qed
  have n: "normalizeDraw H item = Inr None \<longleftrightarrow> \<not> throws_on item \<and> \<not> passes_guard H item"
  proof (cases "normalizeDraw H item")
    case (Inl e)
    then show ?thesis using t by auto
  next
    case (Inr r)
    then have nt: "\<not> throws_on item" using t by auto
    show ?thesis using Inr s nt by (cases r) auto
  qed
  have r: "Number_js H (get_prop item ''draw_no'') = Inr (drwNo d) \<and>
      Number_js H (get_prop item ''bonus_no'') = Inr (bonus d) \<and>
      (\<exists>v s. get_prop item ''date'' = Some v \<and> ToString H v = Inr s \<and> date d = take 10 s) \<and>
      length (numbers d) = 6 \<and>
      (NaN \<notin> set (numbers d) \<longrightarrow> sorted_wrt js_le (numbers d))"
    if h: "normalizeDraw H item = Inr (Some d)" for d
  proof -
    from h obtain n ns b dt where v: "Number_js H (get_prop item ''draw_no'') = Inr n"
      "numbers_of H item = Inr ns" "Number_js H (get_prop item ''bonus_no'') = Inr b"
      "toYmd H (get_prop item ''date'') = Inr (Some dt)" "length ns = 6"
      "d = \<lparr>drwNo = n, date = dt, numbers = array_sort js_sub ns, bonus = b\<rparr>"
      unfolding normalizeDraw_Some by blast
    have dt: "\<exists>v s. get_prop item ''date'' = Some v \<and> ToString H v = Inr s \<and> dt = take 10 s"
      using v(4) by (auto simp: toYmd_def split: option.splits if_splits sum.splits)
    have srt: "NaN \<notin> set (numbers d) \<longrightarrow> sorted_wrt js_le (numbers d)"
      using v(6) sorted_array_sort_sub[of ns] by (simp add: set_array_sort)
    show ?thesis using v dt srt by (simp add: length_array_sort)
  qed
  show ?thesis using t e s n r by blast
qed

theorem normalizeDraw_accepts_witness:
  "normalizeDraw \<lparr>StringToNumber = (\<lambda>s. NaN), NumberToString = (\<lambda>x. []),
      Math_pow = (\<lambda>x y. NaN)\<rparr>
      (JObj [(''draw_no'', JNum (Fin 1100)),
             (''numbers'', JArr [JNum (Fin 40), JNum (Fin 3), JNum (Fin 17), JNum (Fin 8),
                                 JNum (Fin 25), JNum (Fin 31)]),
             (''bonus_no'', JNum (Fin 12)),
             (''date'', JStr ''2024-01-06T00:00:00Z'')])
    = Inr (Some \<lparr>drwNo = Fin 1100, date = ''2024-01-06'',
             numbers = [Fin 3, Fin 8, Fin 17, Fin 25, Fin 31, Fin 40], bonus = Fin 12\<rparr>)
   \<and> sorted_wrt js_le [Fin 3, Fin 8, Fin 17, Fin 25, Fin 31, Fin 40]
   \<and> normalizeDraw \<lparr>StringToNumber = (\<lambda>s. NaN), NumberToString = (\<lambda>x. []),
      Math_pow = (\<lambda>x y. NaN)\<rparr>
      (JObj [(''draw_no'', JNum (Fin 1100)),
             (''date'', JObj [(''toString'', JNull)])])
    = Inl TypeError"
  using normalizeDraw_accepts [of "\<lparr>StringToNumber = (\<lambda>s. NaN), NumberToString = (\<lambda>x. []),
      Math_pow = (\<lambda>x y. NaN)\<rparr>"
      "JObj [(''draw_no'', JNum (Fin 1100)),
             (''numbers'', JArr [JNum (Fin 40), JNum (Fin 3), JNum (Fin 17), JNum (Fin 8),
                                 JNum (Fin 25), JNum (Fin 31)]),
             (''bonus_no'', JNum (Fin 12)),
             (''date'', JStr ''2024-01-06T00:00:00Z'')]"]
    normalizeDraw_accepts [of "\<lparr>StringToNumber = (\<lambda>s. NaN), NumberToString = (\<lambda>x. []),
      Math_pow = (\<lambda>x y. NaN)\<rparr>"
      "JObj [(''draw_no'', JNum (Fin 1100)),
             (''date'', JObj [(''toString'', JNull)])]"]
  by (simp add: normalizeDraw_def numbers_of_def toYmd_def array_sort_def js_gt_def)

text \<open>
  The claim as the specification words it fails on both counts. A payload with the draw
  number \<open>-3/2\<close>, an infinite entry among the six, the date \<open>soon\<close> and no bonus at all
  is accepted, and the record carries the bonus \<open>NaN\<close>. A payload without numbers and
  date whose bonus is an object with an own \<^verbatim>\<open>toString\<close> is not answered by \<^verbatim>\<open>null\<close>: the
  conversion of the bonus throws before the guard is reached.
\<close>

theorem normalizeDraw_accepts_counterexample:
  "normalizeDraw \<lparr>StringToNumber = (\<lambda>s. NaN), NumberToString = (\<lambda>x. []),
      Math_pow = (\<lambda>x y. NaN)\<rparr>
      (JObj [(''draw_no'', JNum (Fin (- 3 / 2))),
             (''numbers'', JArr [JNum (Fin 6), JNum PosInf, JNum (Fin 5), JNum (Fin 4),
                                 JNum (Fin 3), JNum (Fin 2)]),
             (''date'', JStr ''soon'')])
    = Inr (Some \<lparr>drwNo = Fin (- 3 / 2), date = ''soon'',
             numbers = [Fin 2, Fin 3, Fin 4, Fin 5, Fin 6, PosInf], bonus = NaN\<rparr>)
   \<and> \<not> isFinite PosInf \<and> \<not> isFinite NaN \<and> \<not> (0 :: rat) < - 3 / 2
   \<and> normalizeDraw \<lparr>StringToNumber = (\<lambda>s. NaN), NumberToString = (\<lambda>x. []),
      Math_pow = (\<lambda>x y. NaN)\<rparr>
      (JObj [(''draw_no'', JNum (Fin 1)),
             (''bonus_no'', JObj [(''toString'', JNum (Fin 1))])])
    = Inl TypeError"
  by (simp add: normalizeDraw_def numbers_of_def toYmd_def array_sort_def js_gt_def)

text \<open>
  Claim C6, as the code has it. A record that \<^verbatim>\<open>normalizeDraw\<close> accepts has six main
  numbers, which are the payload's six converted entries rearranged (ascending when none
  is \<open>NaN\<close>), and its bonus is the payload's converted bonus. Nothing is checked about
  range, integrality or distinctness, so the record satisfies the DrawRecord invariant
  exactly when the payload's converted values do.
\<close>

theorem normalizeDraw_invariant_iff:
  "normalizeDraw H item = Inr (Some d) \<Longrightarrow>
     \<exists>ns b. numbers_of H item = Inr ns \<and> Number_js H (get_prop item ''bonus_no'') = Inr b \<and>
       length (numbers d) = 6 \<and> mset (numbers d) = mset ns \<and> bonus d = b \<and>
       (NaN \<notin> set (numbers d) \<longrightarrow> sorted_wrt js_le (numbers d)) \<and>
       (draw_invariant d \<longleftrightarrow> distinct ns \<and> list_all in_1_45 ns \<and> in_1_45 b)"
proof -
  assume h: "normalizeDraw H item = Inr (Some d)"
  then obtain ns b where ns: "numbers_of H item = Inr ns"
    and bb: "Number_js H (get_prop item ''bonus_no'') = Inr b"
    and n: "numbers d = array_sort js_sub ns" and len: "length ns = 6" and b: "bonus d = b"
    unfolding normalizeDraw_Some by auto
  have m: "mset (numbers d) = mset ns" by (simp add: n mset_array_sort)
  have s: "set (numbers d) = set ns" by (simp add: n set_array_sort)
  have d: "distinct (numbers d) = distinct ns" using m by (metis mset_eq_imp_distinct_iff)
  have srt: "NaN \<notin> set (numbers d) \<longrightarrow> sorted_wrt js_le (numbers d)"
    using s n sorted_array_sort_sub by metis
  have la: "list_all in_1_45 (numbers d) = list_all in_1_45 ns"
    by (simp add: list_all_iff s)
  have "list_all in_1_45 ns \<Longrightarrow> sorted_wrt js_le (numbers d)"
    using srt s in_1_45_not_NaN by (auto simp: list_all_iff)
  then have inv: "draw_invariant d \<longleftrightarrow> distinct ns \<and> list_all in_1_45 ns \<and> in_1_45 b"
    unfolding draw_invariant_def using d la b len n by (auto simp: length_array_sort)
  have l6: "length (numbers d) = 6" using len n by (simp add: length_array_sort)
  show ?thesis
    by (intro exI[of _ ns] exI[of _ b] conjI) (rule ns bb l6 m b srt inv)+
qed

theorem normalizeDraw_invariant_iff_witness:
  "normalizeDraw \<lparr>StringToNumber = (\<lambda>s. NaN), NumberToString = (\<lambda>x. []),
      Math_pow = (\<lambda>x y. NaN)\<rparr>
      (JObj [(''draw_no'', JNum (Fin 1101)),
             (''numbers'', JArr [JNum (Fin 45), JNum (Fin 1), JNum (Fin 17), JNum (Fin 8),
                                 JNum (Fin 25), JNum (Fin 31)]),
             (''bonus_no'', JNum (Fin 8)),
             (''date'', JStr ''2024-01-13'')])
    = Inr (Some \<lparr>drwNo = Fin 1101, date = ''2024-01-13'',
             numbers = [Fin 1, Fin 8, Fin 17, Fin 25, Fin 31, Fin 45], bonus = Fin 8\<rparr>)
   \<and> draw_invariant \<lparr>drwNo = Fin 1101, date = ''2024-01-13'',
             numbers = [Fin 1, Fin 8, Fin 17, Fin 25, Fin 31, Fin 45], bonus = Fin 8\<rparr>"
  using normalizeDraw_invariant_iff [of "\<lparr>StringToNumber = (\<lambda>s. NaN), NumberToString = (\<lambda>x. []),
      Math_pow = (\<lambda>x y. NaN)\<rparr>"
      "JObj [(''draw_no'', JNum (Fin 1101)),
             (''numbers'', JArr [JNum (Fin 45), JNum (Fin 1), JNum (Fin 17), JNum (Fin 8),
                                 JNum (Fin 25), JNum (Fin 31)]),
             (''bonus_no'', JNum (Fin 8)),
             (''date'', JStr ''2024-01-13'')]"
      "\<lparr>drwNo = Fin 1101, date = ''2024-01-13'',
             numbers = [Fin 1, Fin 8, Fin 17, Fin 25, Fin 31, Fin 45], bonus = Fin 8\<rparr>"]
  by (simp add: normalizeDraw_def numbers_of_def toYmd_def array_sort_def js_gt_def
      draw_invariant_def in_1_45_def js_le_def)

text \<open>
  The invariant itself is not guaranteed: a payload with five equal entries, an entry
  of 50 and the bonus 0 is accepted.
\<close>

theorem normalizeDraw_invariant_counterexample:
  "normalizeDraw \<lparr>StringToNumber = (\<lambda>s. NaN), NumberToString = (\<lambda>x. []),
      Math_pow = (\<lambda>x y. NaN)\<rparr>
      (JObj [(''draw_no'', JNum (Fin 1)),
             (''numbers'', JArr [JNum (Fin 50), JNum (Fin 7), JNum (Fin 7), JNum (Fin 7),
                                 JNum (Fin 7), JNum (Fin 7)]),
             (''bonus_no'', JNum (Fin 0)),
             (''date'', JStr ''2024-01-06T00:00:00Z'')])
    = Inr (Some \<lparr>drwNo = Fin 1, date = ''2024-01-06'',
             numbers = [Fin 7, Fin 7, Fin 7, Fin 7, Fin 7, Fin 50], bonus = Fin 0\<rparr>)
   \<and> \<not> draw_invariant \<lparr>drwNo = Fin 1, date = ''2024-01-06'',
             numbers = [Fin 7, Fin 7, Fin 7, Fin 7, Fin 7, Fin 50], bonus = Fin 0\<rparr>"
  by (simp add: normalizeDraw_def numbers_of_def toYmd_def array_sort_def js_gt_def
      draw_invariant_def)

section \<open>The ledger merger\<close>

text \<open>
  \<^verbatim>\<open>mergeByNo\<close> files both arrays into one \<^verbatim>\<open>Map\<close> keyed by \<^verbatim>\<open>Number(d.drwNo)\<close>, the
  existing draws first, and returns the values sorted by draw number. One step of either
  loop is \<open>merge_step\<close>; its guard \<^verbatim>\<open>d && Number.isFinite(Number(d.drwNo))\<close> is the
  finiteness test, an element of type \<open>draw\<close> being neither \<^verbatim>\<open>null\<close> nor without a
  numeric \<^verbatim>\<open>drwNo\<close>.
\<close>

definition merge_step :: "(jsnum \<times> draw) list \<Rightarrow> draw \<Rightarrow> (jsnum \<times> draw) list" where
  "merge_step m d = (if isFinite (drwNo d) then map_set m (drwNo d) d else m)"

definition by_drwNo :: "draw \<Rightarrow> draw \<Rightarrow> jsnum" where
  "by_drwNo a b = js_sub (drwNo a) (drwNo b)"

definition mergeByNo :: "draw list \<Rightarrow> draw list \<Rightarrow> draw list" where
  "mergeByNo existingDraws newDraws =
     (let m = foldl merge_step [] existingDraws;
          m = foldl merge_step m newDraws
      in array_sort by_drwNo (map snd m))"

text \<open>
  Notions for stating what a merge returns: the first record of a list with a given draw
  number, the last one with a given finite draw number (the one a merge keeps), and
  lists whose draw numbers are finite and strictly ascending.
\<close>

definition find_no :: "draw list \<Rightarrow> jsnum \<Rightarrow> draw option" where
  "find_no ds k = find (\<lambda>d. drwNo d = k) ds"

definition last_no :: "draw list \<Rightarrow> jsnum \<Rightarrow> draw option" where
  "last_no ds k = (if isFinite k then find (\<lambda>d. drwNo d = k) (rev ds) else None)"

definition fin_val :: "jsnum \<Rightarrow> rat" where
  "fin_val x = (case x of Fin q \<Rightarrow> q | _ \<Rightarrow> 0)"

definition ascending_no :: "draw list \<Rightarrow> bool" where
  "ascending_no ds = (list_all (\<lambda>d. isFinite (drwNo d)) ds \<and> sorted_wrt (\<lambda>a b. js_lt (drwNo a) (drwNo b)) ds)"


subsection \<open>The map behind a merge\<close>

lemma map_get_map_set: "map_get (map_set m k v) k' = (if k' = k then Some v else map_get m k')"
  by (induction m) auto

lemma map_fst_map_set:
  "map fst (map_set m k v) = (if k \<in> set (map fst m) then map fst m else map fst m @ [k])"
  by (induction m) (force simp: image_iff)+

lemma distinct_map_set: "distinct (map fst m) \<Longrightarrow> distinct (map fst (map_set m k v))"
  by (simp add: map_fst_map_set)

lemma map_get_None: "map_get m k = None \<longleftrightarrow> k \<notin> fst ` set m"
  by (induction m) (force simp: image_iff split: if_splits)+

lemma map_get_Some_mem: "map_get m k = Some v \<Longrightarrow> (k, v) \<in> set m"
  by (induction m) (auto split: if_splits)

text \<open>Every entry of the map is filed under its own, finite, draw number.\<close>

definition keyed :: "(jsnum \<times> draw) list \<Rightarrow> bool" where
  "keyed m = (distinct (map fst m) \<and> (\<forall>(k, d)\<in>set m. isFinite k \<and> drwNo d = k))"

lemma keyed_Nil: "keyed []" by (simp add: keyed_def)

lemma set_map_set_subset: "set (map_set m k v) \<subseteq> insert (k, v) (set m)"
  by (induction m) (auto split: if_splits)

lemma keyed_step: "keyed m \<Longrightarrow> keyed (merge_step m d)"
  unfolding keyed_def merge_step_def
  using set_map_set_subset[of m "drwNo d" d] by (auto simp: distinct_map_set)

lemma keyed_foldl: "keyed m \<Longrightarrow> keyed (foldl merge_step m ds)"
  by (induction ds arbitrary: m) (auto simp: keyed_step)

lemma get_step: "map_get (merge_step m d) k = (if isFinite (drwNo d) \<and> drwNo d = k then Some d else map_get m k)"
  by (auto simp: merge_step_def map_get_map_set)

lemma find_append:
  "find P (xs @ ys) = (case find P xs of None \<Rightarrow> find P ys | Some x \<Rightarrow> Some x)"
  by (induction xs) auto

lemma get_foldl:
  "map_get (foldl merge_step m ds) k = (case last_no ds k of Some d \<Rightarrow> Some d | None \<Rightarrow> map_get m k)"
proof (induction ds arbitrary: m)
  case Nil
  then show ?case by (simp add: last_no_def)
next
  case (Cons d ds)
  show ?case
    by (auto simp: Cons.IH get_step last_no_def find_append split: option.splits)
qed

subsection \<open>The final sort\<close>

lemma insert_by_insort:
  "isFinite (drwNo x) \<Longrightarrow> list_all (\<lambda>d. isFinite (drwNo d)) ys \<Longrightarrow>
   insert_by by_drwNo x ys = insort_key (\<lambda>d. fin_val (drwNo d)) x ys"
proof (induction ys)
  case Nil then show ?case by simp
next
  case (Cons y ys)
  obtain a b where "drwNo x = Fin a" "drwNo y = Fin b"
    using Cons.prems by (cases "drwNo x"; cases "drwNo y") auto
  then show ?case using Cons by (auto simp: by_drwNo_def js_gt_def fin_val_def)
qed

lemma array_sort_sort_key:
  "list_all (\<lambda>d. isFinite (drwNo d)) xs \<Longrightarrow>
   array_sort by_drwNo xs = sort_key (\<lambda>d. fin_val (drwNo d)) xs"
proof (induction xs)
  case Nil then show ?case by (simp add: array_sort_def)
next
  case (Cons x xs)
  have "list_all (\<lambda>d. isFinite (drwNo d)) (array_sort by_drwNo xs)"
    using Cons.prems by (simp add: list_all_iff set_array_sort)
  then have "insert_by by_drwNo x (array_sort by_drwNo xs) = insort_key (\<lambda>d. fin_val (drwNo d)) x (array_sort by_drwNo xs)"
    using Cons.prems by (intro insert_by_insort) auto
  then show ?case using Cons by (simp add: array_sort_def)
qed

lemma js_lt_fin_val: "isFinite a \<Longrightarrow> isFinite b \<Longrightarrow> js_lt a b = (fin_val a < fin_val b)"
  by (cases a; cases b) (auto simp: fin_val_def)

lemma fin_val_inj: "isFinite a \<Longrightarrow> isFinite b \<Longrightarrow> fin_val a = fin_val b \<Longrightarrow> a = b"
  by (cases a; cases b) (auto simp: fin_val_def)

lemma ascending_no_alt:
  "ascending_no ds \<longleftrightarrow> list_all (\<lambda>d. isFinite (drwNo d)) ds \<and> sorted_wrt (<) (map (\<lambda>d. fin_val (drwNo d)) ds)"
proof -
  have "list_all (\<lambda>d. isFinite (drwNo d)) ds \<Longrightarrow>
     sorted_wrt (\<lambda>a b. js_lt (drwNo a) (drwNo b)) ds = sorted_wrt (\<lambda>a b. fin_val (drwNo a) < fin_val (drwNo b)) ds"
    by (auto simp: list_all_iff js_lt_fin_val elim!: sorted_wrt_mono_rel[rotated])
  then show ?thesis by (auto simp: ascending_no_def sorted_wrt_map)
qed

lemma ascending_mergeByNo: "ascending_no (mergeByNo L X)"
proof -
  let ?m = "foldl merge_step (foldl merge_step [] L) X"
  let ?f = "\<lambda>d. fin_val (drwNo d)"
  have k: "keyed ?m" by (simp add: keyed_foldl keyed_Nil)
  then have fin: "list_all (\<lambda>d. isFinite (drwNo d)) (map snd ?m)"
    by (auto simp: keyed_def list_all_iff)
  have eq: "mergeByNo L X = sort_key ?f (map snd ?m)"
    by (simp add: mergeByNo_def array_sort_sort_key[OF fin])
  have "map drwNo (map snd ?m) = map fst ?m"
    using k by (auto simp: keyed_def intro!: map_cong)
  then have "distinct (map drwNo (map snd ?m))" using k by (simp only: keyed_def)
  moreover have "inj_on fin_val (set (map drwNo (map snd ?m)))"
    using fin by (auto simp: inj_on_def list_all_iff intro: fin_val_inj)
  ultimately have "distinct (map fin_val (map drwNo (map snd ?m)))"
    by (simp only: distinct_map)
  then have "distinct (map ?f (map snd ?m))" by (simp add: comp_def)
  then have "distinct (map ?f (sort_key ?f (map snd ?m)))"
    by (metis distinct_map distinct_sort set_sort)
  moreover have "sorted (map ?f (sort_key ?f (map snd ?m)))" by simp
  ultimately have "sorted_wrt (<) (map ?f (mergeByNo L X))"
    unfolding eq by (simp add: strict_sorted_iff)
  moreover have "list_all (\<lambda>d. isFinite (drwNo d)) (mergeByNo L X)"
    unfolding eq using fin by (simp add: list_all_iff)
  ultimately show ?thesis by (simp add: ascending_no_alt)
qed

lemma find_no_Some_distinct:
  "distinct (map drwNo M) \<Longrightarrow> find_no M k = Some d \<longleftrightarrow> d \<in> set M \<and> drwNo d = k"
proof (induction M)
  case Nil then show ?case by (simp add: find_no_def)
next
  case (Cons a M)
  then show ?case by (auto simp: find_no_def image_iff)
qed

lemma find_no_None: "find_no M k = None \<longleftrightarrow> k \<notin> drwNo ` set M"
  by (auto simp: find_no_def find_None_iff)

lemma ascending_distinct: "ascending_no M \<Longrightarrow> distinct (map drwNo M)"
proof -
  assume a: "ascending_no M"
  then have "distinct (map (\<lambda>d. fin_val (drwNo d)) M)"
    by (simp add: ascending_no_alt strict_sorted_iff)
  then have "distinct (map fin_val (map drwNo M))" by (simp add: comp_def)
  then show ?thesis by (simp only: distinct_map)
qed

lemma ascending_finite: "ascending_no M \<Longrightarrow> d \<in> set M \<Longrightarrow> isFinite (drwNo d)"
  by (simp add: ascending_no_def list_all_iff)

lemma find_rev_distinct:
  fixes M :: "draw list"
  shows "distinct (map drwNo M) \<Longrightarrow> find (\<lambda>d. drwNo d = k) (rev M) = find (\<lambda>d. drwNo d = k) M"
proof -
  assume d: "distinct (map drwNo M)"
  then have dr: "distinct (map drwNo (rev M))" by (simp add: rev_map[symmetric])
  show ?thesis
  proof (cases "find_no M k")
    case None
    then have "find_no (rev M) k = None" by (simp add: find_no_None)
    then show ?thesis using None by (simp add: find_no_def)
  next
    case (Some x)
    then have "find_no (rev M) k = Some x"
      using find_no_Some_distinct[OF d] find_no_Some_distinct[OF dr] by simp
    then show ?thesis using Some by (simp add: find_no_def)
  qed
qed

lemma last_no_ascending: "ascending_no M \<Longrightarrow> last_no M k = find_no M k"
proof -
  assume a: "ascending_no M"
  show ?thesis
  proof (cases "isFinite k")
    case True
    then show ?thesis using find_rev_distinct[OF ascending_distinct[OF a]]
      by (simp add: last_no_def find_no_def)
  next
    case False
    then have "k \<notin> drwNo ` set M" using ascending_finite[OF a] by auto
    then have "find_no M k = None" by (simp add: find_no_None)
    then show ?thesis using False by (simp add: last_no_def)
  qed
qed

lemma last_no_None: "last_no X k = None \<longleftrightarrow> \<not> isFinite k \<or> k \<notin> drwNo ` set X"
  by (auto simp: last_no_def find_None_iff)

lemma find_no_mergeByNo:
  "find_no (mergeByNo L X) k = (case last_no X k of Some d \<Rightarrow> Some d | None \<Rightarrow> last_no L k)"
proof -
  let ?m = "foldl merge_step (foldl merge_step [] L) X"
  let ?M = "mergeByNo L X"
  have k: "keyed ?m" by (simp add: keyed_foldl keyed_Nil)
  have setM: "set ?M = snd ` set ?m"
    by (simp add: mergeByNo_def set_array_sort)
  have dM: "distinct (map drwNo ?M)" by (rule ascending_distinct[OF ascending_mergeByNo])
  have "find_no ?M k = map_get ?m k"
  proof (cases "map_get ?m k")
    case None
    then have "k \<notin> fst ` set ?m" by (simp add: map_get_None)
    then have "k \<notin> drwNo ` set ?M" using k unfolding setM keyed_def by force
    then show ?thesis using None by (simp add: find_no_None)
  next
    case (Some d)
    then have "(k, d) \<in> set ?m" by (rule map_get_Some_mem)
    then have "d \<in> set ?M \<and> drwNo d = k" using k unfolding setM keyed_def by force
    then show ?thesis using Some find_no_Some_distinct[OF dM] by simp
  qed
  also have "\<dots> = (case last_no X k of Some d \<Rightarrow> Some d | None \<Rightarrow> last_no L k)"
    by (simp add: get_foldl split: option.splits)
  finally show ?thesis .
qed

lemma ascending_unique:
  assumes "ascending_no M" "ascending_no M'" "\<And>k. find_no M k = find_no M' k"
  shows "M = M'"
proof -
  let ?f = "\<lambda>d. fin_val (drwNo d)"
  have s: "set M = set M'"
    using assms(3) find_no_Some_distinct[OF ascending_distinct[OF assms(1)]]
      find_no_Some_distinct[OF ascending_distinct[OF assms(2)]]
    by (metis subsetI subset_antisym)
  have "map ?f M = map ?f M'"
    using assms(1,2) s by (intro strict_sorted_equal) (auto simp: ascending_no_alt)
  moreover have "inj_on ?f (set M \<union> set M')"
  proof -
    have "inj_on drwNo (set M)"
      using ascending_distinct[OF assms(1)] by (simp add: distinct_map)
    then show ?thesis
      using s ascending_finite[OF assms(1)] unfolding inj_on_def
      by (metis Un_absorb fin_val_inj)
  qed
  ultimately show ?thesis by (simp add: inj_on_map_eq_map)
qed

lemma keys_mergeByNo:
  "drwNo ` set (mergeByNo L X) = {k \<in> drwNo ` (set L \<union> set X). isFinite k}"
proof -
  have "k \<in> drwNo ` set (mergeByNo L X) \<longleftrightarrow> k \<in> drwNo ` (set L \<union> set X) \<and> isFinite k" for k
  proof -
    have "k \<in> drwNo ` set (mergeByNo L X) \<longleftrightarrow> find_no (mergeByNo L X) k \<noteq> None"
      by (simp add: find_no_None)
    also have "\<dots> \<longleftrightarrow> last_no X k \<noteq> None \<or> last_no L k \<noteq> None"
      by (auto simp: find_no_mergeByNo split: option.splits)
    also have "\<dots> \<longleftrightarrow> k \<in> drwNo ` (set L \<union> set X) \<and> isFinite k"
      by (auto simp: last_no_None)
    finally show ?thesis .
  qed
  then show ?thesis by blast
qed

lemma last_no_mergeByNo:
  "last_no (mergeByNo L X) k = (case last_no X k of Some d \<Rightarrow> Some d | None \<Rightarrow> last_no L k)"
  by (simp add: last_no_ascending[OF ascending_mergeByNo] find_no_mergeByNo)

text \<open>
  Claim C8. Merge is idempotent: for every ledger \<open>L\<close> and every list of records \<open>X\<close>,
  merging into \<open>L\<close> the result of merging \<open>X\<close> into \<open>L\<close> gives that result again.
\<close>

theorem mergeByNo_idempotent: "mergeByNo L (mergeByNo L X) = mergeByNo L X"
proof (rule ascending_unique)
  show "ascending_no (mergeByNo L (mergeByNo L X))" by (rule ascending_mergeByNo)
  show "ascending_no (mergeByNo L X)" by (rule ascending_mergeByNo)
  fix k
  show "find_no (mergeByNo L (mergeByNo L X)) k = find_no (mergeByNo L X) k"
    by (simp add: find_no_mergeByNo last_no_mergeByNo split: option.splits)
qed

text \<open>
  Claim C4, as the code has it. Two merges into the same ledger can be swapped exactly
  when the two record sets do not contradict each other: for every draw number on which
  both have a record, the record each of them would leave is the same (in particular
  when they share no draw number). For any draw number of the incoming records, the
  merged ledger holds the incoming record (the last one for that number), whatever the
  current ledger held.
\<close>

theorem mergeByNo_commute_iff:
  "(mergeByNo (mergeByNo L A) B = mergeByNo (mergeByNo L B) A) =
     (\<forall>k. last_no A k \<noteq> None \<and> last_no B k \<noteq> None \<longrightarrow> last_no A k = last_no B k)
   \<and> (\<forall>k d. last_no X k = Some d \<longrightarrow> find_no (mergeByNo L X) k = Some d)"
proof -
  have look: "find_no (mergeByNo (mergeByNo L P) Q) k =
      (case last_no Q k of Some d \<Rightarrow> Some d | None \<Rightarrow>
         (case last_no P k of Some d \<Rightarrow> Some d | None \<Rightarrow> last_no L k))" for P Q k
    by (simp add: find_no_mergeByNo last_no_mergeByNo split: option.splits)
  have "(mergeByNo (mergeByNo L A) B = mergeByNo (mergeByNo L B) A) \<longleftrightarrow>
        (\<forall>k. find_no (mergeByNo (mergeByNo L A) B) k = find_no (mergeByNo (mergeByNo L B) A) k)"
    using ascending_unique[OF ascending_mergeByNo ascending_mergeByNo] by metis
  also have "\<dots> \<longleftrightarrow> (\<forall>k. last_no A k \<noteq> None \<and> last_no B k \<noteq> None \<longrightarrow> last_no A k = last_no B k)"
    unfolding look by (intro all_cong1) (auto split: option.splits)
  finally have a: "(mergeByNo (mergeByNo L A) B = mergeByNo (mergeByNo L B) A) =
     (\<forall>k. last_no A k \<noteq> None \<and> last_no B k \<noteq> None \<longrightarrow> last_no A k = last_no B k)" .
  have b: "\<forall>k d. last_no X k = Some d \<longrightarrow> find_no (mergeByNo L X) k = Some d"
    by (simp add: find_no_mergeByNo)
  show ?thesis using a b by (rule conjI)
qed

theorem mergeByNo_commute_iff_witness:
  "mergeByNo
     (mergeByNo [\<lparr>drwNo = Fin 1, date = ''2002-12-07'', numbers = [Fin 10, Fin 23, Fin 29, Fin 33, Fin 37, Fin 40], bonus = Fin 16\<rparr>]
                [\<lparr>drwNo = Fin 3, date = ''2002-12-21'', numbers = [Fin 11, Fin 16, Fin 19, Fin 21, Fin 27, Fin 31], bonus = Fin 30\<rparr>])
     [\<lparr>drwNo = Fin 2, date = ''2002-12-14'', numbers = [Fin 9, Fin 13, Fin 21, Fin 25, Fin 32, Fin 42], bonus = Fin 2\<rparr>]
   = mergeByNo
     (mergeByNo [\<lparr>drwNo = Fin 1, date = ''2002-12-07'', numbers = [Fin 10, Fin 23, Fin 29, Fin 33, Fin 37, Fin 40], bonus = Fin 16\<rparr>]
                [\<lparr>drwNo = Fin 2, date = ''2002-12-14'', numbers = [Fin 9, Fin 13, Fin 21, Fin 25, Fin 32, Fin 42], bonus = Fin 2\<rparr>])
     [\<lparr>drwNo = Fin 3, date = ''2002-12-21'', numbers = [Fin 11, Fin 16, Fin 19, Fin 21, Fin 27, Fin 31], bonus = Fin 30\<rparr>]
   \<and> find_no
       (mergeByNo [\<lparr>drwNo = Fin 1, date = ''2002-12-07'', numbers = [Fin 10, Fin 23, Fin 29, Fin 33, Fin 37, Fin 40], bonus = Fin 16\<rparr>]
                  [\<lparr>drwNo = Fin 1, date = ''2002-12-07'', numbers = [Fin 10, Fin 23, Fin 29, Fin 33, Fin 37, Fin 40], bonus = Fin 17\<rparr>])
       (Fin 1)
     = Some \<lparr>drwNo = Fin 1, date = ''2002-12-07'', numbers = [Fin 10, Fin 23, Fin 29, Fin 33, Fin 37, Fin 40], bonus = Fin 17\<rparr>"
  using mergeByNo_commute_iff
    [of "[\<lparr>drwNo = Fin 1, date = ''2002-12-07'', numbers = [Fin 10, Fin 23, Fin 29, Fin 33, Fin 37, Fin 40], bonus = Fin 16\<rparr>]"
        "[\<lparr>drwNo = Fin 3, date = ''2002-12-21'', numbers = [Fin 11, Fin 16, Fin 19, Fin 21, Fin 27, Fin 31], bonus = Fin 30\<rparr>]"
        "[\<lparr>drwNo = Fin 2, date = ''2002-12-14'', numbers = [Fin 9, Fin 13, Fin 21, Fin 25, Fin 32, Fin 42], bonus = Fin 2\<rparr>]"
        "[\<lparr>drwNo = Fin 1, date = ''2002-12-07'', numbers = [Fin 10, Fin 23, Fin 29, Fin 33, Fin 37, Fin 40], bonus = Fin 17\<rparr>]"]
  by (simp add: last_no_def find_no_def mergeByNo_def merge_step_def array_sort_def by_drwNo_def js_gt_def)

text \<open>
  Swapping fails as soon as the two record sets disagree on a draw number: the later
  merge wins, so the two orders leave different records for draw 1.
\<close>

theorem mergeByNo_commute_counterexample:
  "mergeByNo
     (mergeByNo [] [\<lparr>drwNo = Fin 1, date = ''2002-12-07'', numbers = [Fin 10, Fin 23, Fin 29, Fin 33, Fin 37, Fin 40], bonus = Fin 16\<rparr>])
     [\<lparr>drwNo = Fin 1, date = ''2002-12-07'', numbers = [Fin 10, Fin 23, Fin 29, Fin 33, Fin 37, Fin 40], bonus = Fin 17\<rparr>]
   \<noteq> mergeByNo
     (mergeByNo [] [\<lparr>drwNo = Fin 1, date = ''2002-12-07'', numbers = [Fin 10, Fin 23, Fin 29, Fin 33, Fin 37, Fin 40], bonus = Fin 17\<rparr>])
     [\<lparr>drwNo = Fin 1, date = ''2002-12-07'', numbers = [Fin 10, Fin 23, Fin 29, Fin 33, Fin 37, Fin 40], bonus = Fin 16\<rparr>]"
  by (simp add: mergeByNo_def merge_step_def array_sort_def by_drwNo_def js_gt_def)

section \<open>The consensus resolver\<close>

text \<open>
  A fetch result \<^verbatim>\<open>{ sourceId, url, draw }\<close>; the url is a function of the source and is
  left out.
\<close>

record fetched =
  sourceId :: string
  draw :: draw

record consensus =
  latestNo :: jsnum
  consensusDraw :: draw
  agreed :: bool
  consensusCount :: nat
  detail_byNo :: "(jsnum \<times> string list) list"
  detail_bySig :: "(string \<times> string list) list"

text \<open>
  \<^verbatim>\<open>if (!m.has(k)) m.set(k, []); m.get(k).push(v)\<close>: the value is appended to the array
  stored under its key, a new key going to the end of the map.
\<close>

fun map_push :: "('k \<times> 'v list) list \<Rightarrow> 'k \<Rightarrow> 'v \<Rightarrow> ('k \<times> 'v list) list" where
  "map_push [] k v = [(k, [v])]"
| "map_push ((k', vs) # m) k v =
     (if k' = k then (k', vs @ [v]) # m else (k', vs) # map_push m k v)"

definition group_by :: "('v \<Rightarrow> 'k) \<Rightarrow> 'v list \<Rightarrow> ('k \<times> 'v list) list" where
  "group_by key rs = foldl (\<lambda>m r. map_push m (key r) r) [] rs"

text \<open>The comparator \<^verbatim>\<open>(a, b) => b[1].length - a[1].length\<close> on map entries.\<close>

definition by_count_desc :: "('k \<times> 'v list) \<Rightarrow> ('k \<times> 'v list) \<Rightarrow> jsnum" where
  "by_count_desc a b = js_sub (Fin (of_nat (length (snd b)))) (Fin (of_nat (length (snd a))))"

text \<open>
  \<^verbatim>\<open>pickConsensusLatest\<close>. On an empty list \<^verbatim>\<open>nos[0]\<close> is \<^verbatim>\<open>undefined\<close>, there are no
  candidates, and destructuring \<^verbatim>\<open>sigs[0]\<close> throws a \<^verbatim>\<open>TypeError\<close>.
\<close>

definition pickConsensusLatest :: "host \<Rightarrow> fetched list \<Rightarrow> error + consensus" where
  "pickConsensusLatest H latestResults =
     (let byNo = group_by (\<lambda>r. drwNo (draw r)) latestResults;
          nos = array_sort (\<lambda>a b. js_sub b a) (map fst byNo);
          targetNo =
            (case find (\<lambda>n. case map_get byNo n of Some arr \<Rightarrow> length arr \<ge> 2 | None \<Rightarrow> False) nos of
               Some n \<Rightarrow> Some n
             | None \<Rightarrow> (case nos of [] \<Rightarrow> None | n # _ \<Rightarrow> Some n));
          candidates =
            (case targetNo of
               None \<Rightarrow> []
             | Some n \<Rightarrow> (case map_get byNo n of Some arr \<Rightarrow> arr | None \<Rightarrow> []));
          bySig = group_by (\<lambda>r. drawSig H (draw r)) candidates;
          sigs = array_sort by_count_desc bySig
      in case (targetNo, sigs) of
           (Some n, (bestSig, r # bestArr) # _) \<Rightarrow>
             Inr \<lparr>latestNo = n, consensusDraw = draw r,
                  agreed = (length (r # bestArr) \<ge> 2),
                  consensusCount = length (r # bestArr),
                  detail_byNo = map (\<lambda>(n, arr). (n, map sourceId arr)) byNo,
                  detail_bySig = map (\<lambda>(sig, arr). (sig, map sourceId arr)) bySig\<rparr>
         | _ \<Rightarrow> Inl TypeError)"

text \<open>
  The resolver as the specification words it. The support of a draw number, or of a
  signature within a group, is the number of distinct sources that reported it. The
  target is the highest draw number supported by at least two sources, or the highest
  draw number seen when none is. The winner is the first result, in input order, whose
  signature has the greatest support within the target's group.
\<close>

definition support_no :: "fetched list \<Rightarrow> jsnum \<Rightarrow> nat" where
  "support_no rs n = length (remdups (map sourceId (filter (\<lambda>r. drwNo (draw r) = n) rs)))"

definition is_target :: "fetched list \<Rightarrow> jsnum \<Rightarrow> bool" where
  "is_target rs t =
     (let nos = map (\<lambda>r. drwNo (draw r)) rs in
      t \<in> set nos \<and>
      (if \<exists>n\<in>set nos. 2 \<le> support_no rs n
       then 2 \<le> support_no rs t \<and> (\<forall>n\<in>set nos. 2 \<le> support_no rs n \<longrightarrow> js_le n t)
       else \<forall>n\<in>set nos. js_le n t))"

definition support_sig :: "host \<Rightarrow> fetched list \<Rightarrow> string \<Rightarrow> nat" where
  "support_sig H G s = length (remdups (map sourceId (filter (\<lambda>r. drawSig H (draw r) = s) G)))"

definition is_winner :: "host \<Rightarrow> fetched list \<Rightarrow> fetched \<Rightarrow> bool" where
  "is_winner H G w =
     (find (\<lambda>r. \<forall>r'\<in>set G. support_sig H G (drawSig H (draw r')) \<le> support_sig H G (drawSig H (draw r))) G
        = Some w)"


subsection \<open>Grouping in insertion order\<close>

definition add_key :: "'k list \<Rightarrow> 'k \<Rightarrow> 'k list" where
  "add_key ks k = (if k \<in> set ks then ks else ks @ [k])"

lemma map_fst_map_push: "map fst (map_push m k v) = add_key (map fst m) k"
  by (induction m k v rule: map_push.induct) (auto simp: add_key_def)

lemma map_get_map_push:
  "map_get (map_push m k v) k' =
     (if k' = k then Some ((case map_get m k of Some vs \<Rightarrow> vs | None \<Rightarrow> []) @ [v])
      else map_get m k')"
  by (induction m k v rule: map_push.induct) auto

lemma keys_group_foldl:
  "map fst (foldl (\<lambda>m r. map_push m (key r) r) m rs) = foldl add_key (map fst m) (map key rs)"
  by (induction rs arbitrary: m) (auto simp: map_fst_map_push)

lemma get_group_foldl:
  "map_get (foldl (\<lambda>m r. map_push m (key r) r) m rs) k =
     (case map_get m k of
        Some vs \<Rightarrow> Some (vs @ filter (\<lambda>r. key r = k) rs)
      | None \<Rightarrow> if k \<in> key ` set rs then Some (filter (\<lambda>r. key r = k) rs) else None)"
proof (induction rs arbitrary: m)
  case Nil
  then show ?case by (simp split: option.splits)
next
  case (Cons r rs)
  show ?case
    by (simp add: Cons.IH map_get_map_push split: option.splits)
qed

lemma set_foldl_add_key: "set (foldl add_key ks xs) = set ks \<union> set xs"
  by (induction xs arbitrary: ks) (auto simp: add_key_def)

lemma distinct_foldl_add_key: "distinct ks \<Longrightarrow> distinct (foldl add_key ks xs)"
  by (induction xs arbitrary: ks) (auto simp: add_key_def)

lemma find_foldl_add_key:
  "find Q (foldl add_key ks xs) = (case find Q ks of Some k \<Rightarrow> Some k | None \<Rightarrow> find Q xs)"
proof (induction xs arbitrary: ks)
  case Nil
  then show ?case by (simp split: option.splits)
next
  case (Cons x xs)
  have step: "find Q (foldl add_key ks (x # xs)) =
      (case find Q (add_key ks x) of Some k \<Rightarrow> Some k | None \<Rightarrow> find Q xs)"
    using Cons.IH[of "add_key ks x"] by simp
  show ?case
  proof (cases "x \<in> set ks")
    case True
    then have "Q x \<Longrightarrow> find Q ks \<noteq> None" by (auto simp: find_None_iff)
    moreover have "add_key ks x = ks" using True by (simp add: add_key_def)
    ultimately show ?thesis unfolding step by (auto split: option.splits)
  next
    case False
    then have "add_key ks x = ks @ [x]" by (simp add: add_key_def)
    then show ?thesis unfolding step by (auto simp: find_append split: option.splits)
  qed
qed

lemma keys_group_by: "map fst (group_by key rs) = foldl add_key [] (map key rs)"
  by (simp add: group_by_def keys_group_foldl)

lemma set_keys_group_by: "fst ` set (group_by key rs) = key ` set rs"
proof -
  have "set (map fst (group_by key rs)) = key ` set rs"
    by (simp only: keys_group_by set_foldl_add_key) simp
  then show ?thesis by simp
qed

lemma distinct_keys_group_by: "distinct (map fst (group_by key rs))"
  by (simp add: keys_group_by distinct_foldl_add_key)

lemma find_keys_group_by: "find Q (map fst (group_by key rs)) = find Q (map key rs)"
  by (simp add: keys_group_by find_foldl_add_key)

lemma get_group_by:
  "map_get (group_by key rs) k =
     (if k \<in> key ` set rs then Some (filter (\<lambda>r. key r = k) rs) else None)"
  by (simp add: group_by_def get_group_foldl)

lemma map_get_of_distinct:
  "distinct (map fst m) \<Longrightarrow> (k, v) \<in> set m \<Longrightarrow> map_get m k = Some v"
proof (induction m)
  case Nil then show ?case by simp
next
  case (Cons a m)
  obtain k' v' where a: "a = (k', v')" by (cases a)
  show ?case
  proof (cases "k' = k")
    case True
    then have "(k, v) \<notin> set m" using Cons.prems a by (auto simp: image_iff)
    then show ?thesis using Cons.prems a True by auto
  next
    case False
    then show ?thesis using Cons a by auto
  qed
qed

lemma group_by_entries:
  "group_by key rs = map (\<lambda>k. (k, filter (\<lambda>r. key r = k) rs)) (map fst (group_by key rs))"
proof -
  have "\<And>e. e \<in> set (group_by key rs) \<Longrightarrow> (fst e, filter (\<lambda>r. key r = fst e) rs) = e"
  proof -
    fix e assume e: "e \<in> set (group_by key rs)"
    then have "map_get (group_by key rs) (fst e) = Some (snd e)"
      using map_get_of_distinct[OF distinct_keys_group_by, of "fst e" "snd e" key rs] by simp
    then have "snd e = filter (\<lambda>r. key r = fst e) rs"
      by (auto simp: get_group_by split: if_splits)
    then show "(fst e, filter (\<lambda>r. key r = fst e) rs) = e" by (cases e) simp
  qed
  then have "map (\<lambda>e. (fst e, filter (\<lambda>r. key r = fst e) rs)) (group_by key rs) = group_by key rs"
    by (simp add: map_idI)
  then show ?thesis by (simp add: comp_def)
qed

lemma find_map: "find P (map g xs) = map_option g (find (P \<circ> g) xs)"
  by (induction xs) auto

text \<open>The head of a stable descending sort is the first element of greatest weight.\<close>

lemma hd_insert_by:
  "hd (insert_by cmp x ys) = (if ys \<noteq> [] \<and> js_gt (cmp x (hd ys)) (Fin 0) then hd ys else x)"
  by (cases ys) auto

lemma insert_by_not_Nil: "insert_by cmp x ys \<noteq> []"
  by (cases ys) auto

lemma array_sort_Nil_iff: "array_sort cmp xs = [] \<longleftrightarrow> xs = []"
  by (cases xs) (auto simp: array_sort_def insert_by_not_Nil)

lemma hd_array_sort_desc:
  fixes f :: "'a \<Rightarrow> nat"
  assumes cmp: "\<And>x y. js_gt (cmp x y) (Fin 0) = (f x < f y)"
  shows "xs \<noteq> [] \<Longrightarrow> find (\<lambda>x. \<forall>y\<in>set xs. f y \<le> f x) xs = Some (hd (array_sort cmp xs))"
proof (induction xs)
  case Nil
  then show ?case by simp
next
  case (Cons x xs)
  show ?case
  proof (cases "xs = []")
    case True
    then show ?thesis by (simp add: array_sort_def)
  next
    case False
    let ?h = "hd (array_sort cmp xs)"
    have ih: "find (\<lambda>x. \<forall>y\<in>set xs. f y \<le> f x) xs = Some ?h" using Cons.IH False by simp
    then have hmax: "\<forall>y\<in>set xs. f y \<le> f ?h" and hin: "?h \<in> set xs"
      by (auto simp: find_Some_iff)
    have ne: "array_sort cmp xs \<noteq> []" using False by (simp add: array_sort_Nil_iff)
    have hd: "hd (array_sort cmp (x # xs)) = (if f x < f ?h then ?h else x)"
      using ne by (simp add: array_sort_def hd_insert_by cmp)
    show ?thesis
    proof (cases "f x < f ?h")
      case True
      then have nx: "\<not> (\<forall>y\<in>set (x # xs). f y \<le> f x)" using hin by (force simp: not_le)
      have "find (\<lambda>z. \<forall>y\<in>set (x # xs). f y \<le> f z) xs = find (\<lambda>z. \<forall>y\<in>set xs. f y \<le> f z) xs"
      proof (rule find_cong[OF refl])
        fix z assume "z \<in> set xs"
        then have "f z \<le> f ?h" using hmax by simp
        then show "(\<forall>y\<in>set (x # xs). f y \<le> f z) = (\<forall>y\<in>set xs. f y \<le> f z)"
          using True hin by auto
      qed
      moreover have "find (\<lambda>z. \<forall>y\<in>set (x # xs). f y \<le> f z) (x # xs)
          = find (\<lambda>z. \<forall>y\<in>set (x # xs). f y \<le> f z) xs"
        using nx by (auto simp del: set_simps)
      ultimately show ?thesis using True hd ih by (simp del: set_simps find.simps)
    next
      case False
      then have "\<forall>y\<in>set (x # xs). f y \<le> f x" using hmax by auto
      then show ?thesis using False hd by simp
    qed
  qed
qed

subsection \<open>The resolver against its specification\<close>

lemma js_le_refl: "isFinite a \<Longrightarrow> js_le a a"
  by (cases a) (auto simp: js_le_def)

lemma sorted_insert_by_desc:
  "x \<noteq> NaN \<Longrightarrow> NaN \<notin> set ys \<Longrightarrow> sorted_wrt (\<lambda>a b. js_le b a) ys
     \<Longrightarrow> sorted_wrt (\<lambda>a b. js_le b a) (insert_by (\<lambda>a b. js_sub b a) x ys)"
proof (induction ys)
  case Nil
  then show ?case by simp
next
  case (Cons y ys)
  show ?case
  proof (cases "js_lt x y")
    case True
    then show ?thesis using Cons by (auto simp: js_gt_sub set_insert_by js_lt_le)
  next
    case False
    then have xy: "js_le y x" using Cons.prems by (auto simp: js_le_def)
    then have "\<forall>z\<in>set ys. js_le z x" using Cons.prems by (auto intro: js_le_trans)
    then show ?thesis using Cons.prems False xy by (simp add: js_gt_sub)
  qed
qed

lemma sorted_array_sort_desc:
  "NaN \<notin> set xs \<Longrightarrow> sorted_wrt (\<lambda>a b. js_le b a) (array_sort (\<lambda>a b. js_sub b a) xs)"
proof (induction xs)
  case Nil
  then show ?case by (simp add: array_sort_def)
next
  case (Cons x xs)
  then have "sorted_wrt (\<lambda>a b. js_le b a) (insert_by (\<lambda>a b. js_sub b a) x (array_sort (\<lambda>a b. js_sub b a) xs))"
    by (intro sorted_insert_by_desc) (auto simp: set_array_sort)
  then show ?case by (simp add: array_sort_def)
qed

lemma find_sorted_wrt:
  "sorted_wrt R xs \<Longrightarrow> find P xs = Some n \<Longrightarrow> m \<in> set xs \<Longrightarrow> P m \<Longrightarrow> m = n \<or> R n m"
  by (induction xs) (auto split: if_splits)

lemma hd_sorted_wrt:
  "sorted_wrt R xs \<Longrightarrow> m \<in> set xs \<Longrightarrow> m = hd xs \<or> R (hd xs) m"
  by (cases xs) auto

lemma length_remdups_distinct_filter:
  "distinct (map f xs) \<Longrightarrow> length (remdups (map f (filter P xs))) = length (filter P xs)"
  using distinct_map_filter[of f xs P] by (metis distinct_remdups_id length_map)

lemma hd_filter_find:
  assumes "find P G = Some w" "\<And>r. r \<in> set G \<Longrightarrow> key r = key w \<Longrightarrow> P r"
  shows "filter (\<lambda>r. key r = key w) G = w # tl (filter (\<lambda>r. key r = key w) G)"
  using assms
proof (induction G)
  case Nil
  then show ?case by simp
next
  case (Cons a G)
  show ?case
  proof (cases "P a")
    case True
    then show ?thesis using Cons.prems by simp
  next
    case False
    then have "key a \<noteq> key w" using Cons.prems(2)[of a] by auto
    moreover have "find P G = Some w" using Cons.prems(1) False by simp
    ultimately show ?thesis using Cons.IH Cons.prems(2) by simp
  qed
qed

lemma pick_general:
  assumes ne: "rs \<noteq> []"
    and fin: "\<forall>r\<in>set rs. isFinite (drwNo (draw r))"
    and dist: "distinct (map sourceId rs)"
  shows "\<exists>c w. pickConsensusLatest H rs = Inr c \<and> is_target rs (latestNo c) \<and>
      is_winner H (filter (\<lambda>r. drwNo (draw r) = latestNo c) rs) w \<and>
      consensusDraw c = draw w \<and>
      consensusCount c =
        support_sig H (filter (\<lambda>r. drwNo (draw r) = latestNo c) rs) (drawSig H (draw w)) \<and>
      agreed c = (2 \<le> consensusCount c)"
proof -
  let ?k1 = "\<lambda>r. drwNo (draw r)"
  let ?k2 = "\<lambda>r. drawSig H (draw r)"
  let ?byNo = "group_by ?k1 rs"
  let ?nos = "array_sort (\<lambda>a b. js_sub b a) (map fst ?byNo)"
  let ?big = "\<lambda>n. case map_get ?byNo n of Some arr \<Rightarrow> length arr \<ge> 2 | None \<Rightarrow> False"
  let ?N = "?k1 ` set rs"
  have setnos: "set ?nos = ?N" by (simp add: set_array_sort set_keys_group_by)
  have nonan: "NaN \<notin> set (map fst ?byNo)"
    using fin by (auto simp: set_keys_group_by)
  have srt: "sorted_wrt (\<lambda>a b. js_le b a) ?nos" by (rule sorted_array_sort_desc[OF nonan])
  have nosne: "?nos \<noteq> []" using ne setnos by (metis image_is_empty set_empty)
  have sup: "support_no rs n = length (filter (\<lambda>r. ?k1 r = n) rs)" for n
    unfolding support_no_def by (rule length_remdups_distinct_filter[OF dist])
  have big: "n \<in> ?N \<Longrightarrow> ?big n = (2 \<le> support_no rs n)" for n
    by (auto simp: get_group_by sup)
  have finN: "n \<in> ?N \<Longrightarrow> isFinite n" for n using fin by auto
  define tgt where "tgt = (case find ?big ?nos of Some n \<Rightarrow> Some n
             | None \<Rightarrow> (case ?nos of [] \<Rightarrow> None | n # _ \<Rightarrow> Some n))"
  obtain t where t: "tgt = Some t" and tt: "is_target rs t"
  proof (cases "find ?big ?nos")
    case None
    then have nobig: "\<forall>n\<in>?N. \<not> 2 \<le> support_no rs n"
      using big setnos by (auto simp: find_None_iff)
    obtain h tl where h: "?nos = h # tl" using nosne by (cases ?nos) auto
    then have hin: "h \<in> ?N" using setnos by (metis list.set_intros(1))
    have "\<forall>n\<in>?N. js_le n h"
    proof
      fix n assume n: "n \<in> ?N"
      then have "n = hd ?nos \<or> js_le n (hd ?nos)"
        using hd_sorted_wrt[OF srt, of n] setnos by simp
      then show "js_le n h" using h js_le_refl[OF finN[OF hin]] by auto
    qed
    then have "is_target rs h" using nobig hin unfolding is_target_def Let_def by auto
    moreover have "tgt = Some h" using None h by (simp add: tgt_def)
    ultimately show ?thesis using that by blast
  next
    case (Some n)
    then have nin: "n \<in> ?N" and nb: "?big n"
      using setnos by (auto simp: find_Some_iff)
    have "\<forall>m\<in>?N. 2 \<le> support_no rs m \<longrightarrow> js_le m n"
    proof (intro ballI impI)
      fix m assume m: "m \<in> ?N" "2 \<le> support_no rs m"
      then have "m = n \<or> js_le m n"
        using find_sorted_wrt[OF srt Some, of m] setnos big[OF m(1)] by simp
      then show "js_le m n" using js_le_refl[OF finN[OF nin]] by auto
    qed
    then have "is_target rs n" using nin nb big[OF nin] unfolding is_target_def Let_def by auto
    moreover have "tgt = Some n" using Some by (simp add: tgt_def)
    ultimately show ?thesis using that by blast
  qed
  have tin: "t \<in> ?k1 ` set rs" using tt by (simp add: is_target_def Let_def)
  let ?G = "filter (\<lambda>r. ?k1 r = t) rs"
  have cand: "(case map_get ?byNo t of Some arr \<Rightarrow> arr | None \<Rightarrow> []) = ?G"
    using tin by (simp add: get_group_by)
  have Gne: "?G \<noteq> []" using tin by (auto simp: filter_empty_conv)
  have distG: "distinct (map sourceId ?G)" using dist by (simp add: distinct_map_filter)
  define E where "E = group_by ?k2 ?G"
  define ks where "ks = map fst E"
  define g where "g = (\<lambda>k. (k, filter (\<lambda>r. ?k2 r = k) ?G))"
  define cnt where "cnt = (\<lambda>k. length (filter (\<lambda>r. ?k2 r = k) ?G))"
  define f where "f = (\<lambda>e :: string \<times> fetched list. length (snd e))"
  define Pr where "Pr = (\<lambda>x. \<forall>y\<in>set E. f y \<le> f x)"
  define Q where "Q = (\<lambda>k. \<forall>k'\<in>set ks. cnt k' \<le> cnt k)"
  have E: "E = map g ks" unfolding E_def ks_def g_def by (rule group_by_entries)
  have setks: "set ks = ?k2 ` set ?G"
    unfolding ks_def E_def using set_keys_group_by[of ?k2 ?G] by simp
  have Ene: "E \<noteq> []" using Gne setks unfolding ks_def by auto
  have ssig: "support_sig H ?G s = cnt s" for s
    unfolding support_sig_def cnt_def by (rule length_remdups_distinct_filter[OF distG])
  have cmp: "js_gt (by_count_desc x y) (Fin 0) = (f x < f y)"
    for x y :: "string \<times> fetched list"
    by (simp add: by_count_desc_def js_gt_def f_def)
  have hdE: "find Pr E = Some (hd (array_sort by_count_desc E))"
    unfolding Pr_def using cmp Ene by (rule hd_array_sort_desc)
  have setE: "set E = g ` set ks" using E by (metis set_map)
  have PQ: "(Pr \<circ> g) = Q"
    by (rule ext) (simp add: Pr_def Q_def setE g_def f_def cnt_def)
  have "find Pr E = find Pr (map g ks)" using E by (rule arg_cong)
  also have "\<dots> = map_option g (find Q ks)" by (simp only: find_map PQ)
  also have "find Q ks = find Q (map ?k2 ?G)"
    unfolding ks_def E_def by (rule find_keys_group_by)
  also have "\<dots> = map_option ?k2 (find (Q \<circ> ?k2) ?G)" by (rule find_map)
  finally have hd2: "Some (hd (array_sort by_count_desc E)) = map_option g (map_option ?k2 (find (Q \<circ> ?k2) ?G))"
    using hdE by simp
  then obtain w where w: "find (Q \<circ> ?k2) ?G = Some w" by (cases "find (Q \<circ> ?k2) ?G") auto
  have hd3: "hd (array_sort by_count_desc E) = g (?k2 w)" using hd2 w by simp
  have Qeq: "(Q \<circ> ?k2) = (\<lambda>r. \<forall>r'\<in>set ?G. support_sig H ?G (?k2 r') \<le> support_sig H ?G (?k2 r))"
    by (rule ext) (simp add: Q_def setks ssig)
  have win: "is_winner H ?G w" unfolding is_winner_def Qeq[symmetric] by (rule w)
  have "\<And>r. r \<in> set ?G \<Longrightarrow> ?k2 r = ?k2 w \<Longrightarrow> (Q \<circ> ?k2) r"
    using w by (auto simp: find_Some_iff)
  then have arr: "filter (\<lambda>r. ?k2 r = ?k2 w) ?G = w # tl (filter (\<lambda>r. ?k2 r = ?k2 w) ?G)"
    by (rule hd_filter_find[OF w])
  obtain rest where sigs: "array_sort by_count_desc E = g (?k2 w) # rest"
    using hd3 Ene by (cases "array_sort by_count_desc E") (auto simp: array_sort_Nil_iff)
  define bestArr where "bestArr = tl (filter (\<lambda>r. ?k2 r = ?k2 w) ?G)"
  have sigs': "array_sort by_count_desc E = (?k2 w, w # bestArr) # rest"
    using sigs arr by (simp add: bestArr_def g_def)
  have len: "length (w # bestArr) = support_sig H ?G (?k2 w)"
    using arr unfolding ssig bestArr_def cnt_def by (metis (lifting))
  define c where "c = \<lparr>latestNo = t, consensusDraw = draw w,
                  agreed = (length (w # bestArr) \<ge> 2),
                  consensusCount = length (w # bestArr),
                  detail_byNo = map (\<lambda>(n, arr). (n, map sourceId arr)) ?byNo,
                  detail_bySig = map (\<lambda>(sig, arr). (sig, map sourceId arr)) E\<rparr>"
  have pc: "pickConsensusLatest H rs = Inr c"
    unfolding pickConsensusLatest_def Let_def tgt_def[symmetric] t c_def
    unfolding option.case cand E_def[symmetric] sigs' prod.case list.case ..
  have sel: "latestNo c = t" "consensusDraw c = draw w"
    "consensusCount c = length (w # bestArr)" "agreed c = (2 \<le> length (w # bestArr))"
    by (simp_all add: c_def)
  show ?thesis
    by (intro exI[of _ c] exI[of _ w] conjI) (simp_all only: pc sel tt win len)
qed

lemma length_filter_mono:
  "(\<And>x. x \<in> set xs \<Longrightarrow> P x \<Longrightarrow> Q x) \<Longrightarrow> length (filter P xs) \<le> length (filter Q xs)"
  by (induction xs) auto

lemma filter_distinct_key:
  "distinct (map f xs) \<Longrightarrow> x \<in> set xs \<Longrightarrow> filter (\<lambda>y. f y = f x) xs = [x]"
proof (induction xs)
  case Nil
  then show ?case by simp
next
  case (Cons a xs)
  show ?case
  proof (cases "a = x")
    case True
    then have "\<forall>y\<in>set xs. f y \<noteq> f x" using Cons.prems by (auto simp: image_iff)
    then have "filter (\<lambda>y. f y = f x) xs = []" by (simp add: filter_empty_conv)
    then show ?thesis using True by simp
  next
    case False
    then have "x \<in> set xs" using Cons.prems by simp
    then have "f a \<noteq> f x" using Cons.prems by (auto simp: image_iff)
    then show ?thesis using Cons \<open>x \<in> set xs\<close> by simp
  qed
qed

lemma is_winner_mem: "is_winner H G w \<Longrightarrow> w \<in> set G"
  by (auto simp: is_winner_def find_Some_iff)

lemma is_winner_max:
  "is_winner H G w \<Longrightarrow> r \<in> set G \<Longrightarrow>
     support_sig H G (drawSig H (draw r)) \<le> support_sig H G (drawSig H (draw w))"
  by (auto simp: is_winner_def find_Some_iff)

lemma support_sig_length:
  "distinct (map sourceId G) \<Longrightarrow>
     support_sig H G s = length (filter (\<lambda>r. drawSig H (draw r) = s) G)"
  unfolding support_sig_def by (rule length_remdups_distinct_filter)

lemma support_no_length:
  "distinct (map sourceId rs) \<Longrightarrow>
     support_no rs n = length (filter (\<lambda>r. drwNo (draw r) = n) rs)"
  unfolding support_no_def by (rule length_remdups_distinct_filter)

lemma case_identical:
  assumes dist: "distinct (map sourceId rs)"
    and tgt: "is_target rs t"
    and win: "is_winner H (filter (\<lambda>r. drwNo (draw r) = t) rs) w"
    and same: "\<forall>r\<in>set rs. draw r = d"
  shows "draw w = d \<and> support_sig H (filter (\<lambda>r. drwNo (draw r) = t) rs) (drawSig H (draw w)) = length rs"
proof -
  let ?G = "filter (\<lambda>r. drwNo (draw r) = t) rs"
  have "t \<in> (\<lambda>r. drwNo (draw r)) ` set rs" using tgt by (simp add: is_target_def Let_def)
  then have t: "t = drwNo d" using same by auto
  then have G: "?G = rs" using same by (simp add: filter_id_conv)
  have w: "w \<in> set rs" using is_winner_mem[OF win] by simp
  then have dw: "draw w = d" using same by simp
  have "filter (\<lambda>r. drawSig H (draw r) = drawSig H d) rs = rs"
    using same by (simp add: filter_id_conv)
  then show ?thesis using dw G support_sig_length[OF dist, of H "drawSig H d"] by simp
qed


lemma case_two_of_three:
  assumes dist: "distinct (map sourceId rs)"
    and tgt: "is_target rs t"
    and win: "is_winner H (filter (\<lambda>r. drwNo (draw r) = t) rs) w"
    and len: "length rs = 3"
    and two: "length (filter (\<lambda>r. draw r = a) rs) = 2"
    and other: "\<forall>r\<in>set rs. draw r \<noteq> a \<longrightarrow> drawSig H (draw r) \<noteq> drawSig H a"
  shows "draw w = a \<and> support_sig H (filter (\<lambda>r. drwNo (draw r) = t) rs) (drawSig H (draw w)) = 2"
proof -
  let ?k1 = "\<lambda>r. drwNo (draw r)"
  let ?k2 = "\<lambda>r. drawSig H (draw r)"
  have rest: "length (filter (\<lambda>r. draw r \<noteq> a) rs) = 1"
    using sum_length_filter_compl[of "\<lambda>r. draw r = a" rs] len two by simp
  have supa: "2 \<le> support_no rs (drwNo a)"
  proof -
    have "length (filter (\<lambda>r. draw r = a) rs) \<le> length (filter (\<lambda>r. ?k1 r = drwNo a) rs)"
      by (rule length_filter_mono) simp
    then show ?thesis using two by (simp add: support_no_length[OF dist])
  qed
  have "filter (\<lambda>r. draw r = a) rs \<noteq> []" using two by auto
  then obtain x where "x \<in> set (filter (\<lambda>r. draw r = a) rs)"
    by (cases "filter (\<lambda>r. draw r = a) rs") auto
  then have x: "x \<in> set rs" "draw x = a" by simp_all
  have t: "t = drwNo a"
  proof (rule ccontr)
    assume ne: "t \<noteq> drwNo a"
    have "\<exists>n\<in>set (map ?k1 rs). 2 \<le> support_no rs n"
      using supa x by (intro bexI[of _ "drwNo a"]) auto
    then have "2 \<le> support_no rs t" using tgt by (auto simp: is_target_def Let_def)
    moreover have "length (filter (\<lambda>r. ?k1 r = t) rs) \<le> length (filter (\<lambda>r. draw r \<noteq> a) rs)"
      using ne by (intro length_filter_mono) auto
    ultimately show False using rest by (simp add: support_no_length[OF dist])
  qed
  let ?G = "filter (\<lambda>r. ?k1 r = t) rs"
  have distG: "distinct (map sourceId ?G)" using dist by (simp add: distinct_map_filter)
  have xG: "x \<in> set ?G" using x t by simp
  have cnta: "length (filter (\<lambda>r. ?k2 r = drawSig H a) ?G) = 2"
  proof -
    have "(?k1 r = t \<and> ?k2 r = drawSig H a) = (draw r = a)" if "r \<in> set rs" for r
      using other t that by auto
    then have "filter (\<lambda>r. ?k1 r = t \<and> ?k2 r = drawSig H a) rs = filter (\<lambda>r. draw r = a) rs"
      by (rule filter_cong[OF refl])
    then show ?thesis using two by (simp only: filter_filter)
  qed
  have wG: "w \<in> set ?G" by (rule is_winner_mem[OF win])
  have "support_sig H ?G (?k2 x) \<le> support_sig H ?G (?k2 w)" by (rule is_winner_max[OF win xG])
  then have big: "2 \<le> length (filter (\<lambda>r. ?k2 r = ?k2 w) ?G)"
    using cnta x by (simp add: support_sig_length[OF distG])
  have dw: "draw w = a"
  proof (rule ccontr)
    assume ne: "draw w \<noteq> a"
    then have "?k2 w \<noteq> drawSig H a" using other wG by auto
    then have "\<And>r. r \<in> set rs \<Longrightarrow> ?k1 r = t \<and> ?k2 r = ?k2 w \<Longrightarrow> draw r \<noteq> a"
      by auto
    then have "length (filter (\<lambda>r. ?k1 r = t \<and> ?k2 r = ?k2 w) rs) \<le> length (filter (\<lambda>r. draw r \<noteq> a) rs)"
      by (rule length_filter_mono)
    then show False using big rest by (simp only: filter_filter)
  qed
  show ?thesis using dw cnta by (simp add: support_sig_length[OF distG])
qed


lemma case_all_distinct:
  assumes dist: "distinct (map sourceId rs)"
    and tgt: "is_target rs t"
    and win: "is_winner H (filter (\<lambda>r. drwNo (draw r) = t) rs) w"
    and sigs: "distinct (map (\<lambda>r. drawSig H (draw r)) rs)"
  shows "w = hd (filter (\<lambda>r. drwNo (draw r) = t) rs) \<and>
         support_sig H (filter (\<lambda>r. drwNo (draw r) = t) rs) (drawSig H (draw w)) = 1"
proof -
  let ?k2 = "\<lambda>r. drawSig H (draw r)"
  let ?G = "filter (\<lambda>r. drwNo (draw r) = t) rs"
  have distG: "distinct (map sourceId ?G)" using dist by (simp add: distinct_map_filter)
  have sigG: "distinct (map ?k2 ?G)" using sigs by (simp add: distinct_map_filter)
  have one: "support_sig H ?G (?k2 r) = 1" if "r \<in> set ?G" for r
    using filter_distinct_key[OF sigG that] by (simp add: support_sig_length[OF distG])
  have wG: "w \<in> set ?G" by (rule is_winner_mem[OF win])
  then obtain g gs where G: "?G = g # gs" by (cases ?G) auto
  have "\<forall>r'\<in>set ?G. support_sig H ?G (?k2 r') \<le> support_sig H ?G (?k2 g)"
    using one G by (metis list.set_intros(1) order_refl)
  then have "find (\<lambda>r. \<forall>r'\<in>set ?G. support_sig H ?G (?k2 r') \<le> support_sig H ?G (?k2 r)) (g # gs) = Some g"
    by simp
  then have "w = g" using win unfolding is_winner_def G[symmetric] by (simp only: G) simp
  then show ?thesis using G one[OF wG] by simp
qed

text \<open>
  Claim C2, as the code has it. For every non-empty list of fetch-latest results
  (normalized records, one per source) the resolver returns an outcome. Its draw number
  is the target; its record is the winner's and its count the winner's support; agreed
  holds iff that count is at least 2. In particular: results that all carry one record
  yield that record with a count equal to their number (3 for three sources) and, from
  two results on, agreed; two identical records and one with another signature, in any
  order, yield the majority record with count 2 and agreed; results with pairwise
  distinct signatures yield count 1 and not agreed, and the record is that of the first
  result among those with the target draw number. It is the record of the first result
  of the input exactly when that result carries the target draw number, as it does when
  all results share one draw number.
\<close>

theorem pickConsensusLatest_consensus:
  assumes "rs \<noteq> []"
    and "\<forall>r\<in>set rs. isFinite (drwNo (draw r))"
    and "distinct (map sourceId rs)"
  shows "\<exists>c w. pickConsensusLatest H rs = Inr c
      \<and> is_target rs (latestNo c)
      \<and> is_winner H (filter (\<lambda>r. drwNo (draw r) = latestNo c) rs) w
      \<and> consensusDraw c = draw w
      \<and> consensusCount c =
          support_sig H (filter (\<lambda>r. drwNo (draw r) = latestNo c) rs) (drawSig H (draw w))
      \<and> agreed c = (2 \<le> consensusCount c)
      \<and> (\<forall>d. (\<forall>r\<in>set rs. draw r = d) \<longrightarrow>
            consensusDraw c = d \<and> consensusCount c = length rs \<and> agreed c = (2 \<le> length rs))
      \<and> (\<forall>a. length rs = 3 \<and> length (filter (\<lambda>r. draw r = a) rs) = 2 \<and>
              (\<forall>r\<in>set rs. draw r \<noteq> a \<longrightarrow> drawSig H (draw r) \<noteq> drawSig H a) \<longrightarrow>
            consensusDraw c = a \<and> consensusCount c = 2 \<and> agreed c)
      \<and> (distinct (map (\<lambda>r. drawSig H (draw r)) rs) \<longrightarrow>
            consensusDraw c = draw (hd (filter (\<lambda>r. drwNo (draw r) = latestNo c) rs)) \<and>
            consensusCount c = 1 \<and> \<not> agreed c \<and>
            ((\<forall>r\<in>set rs. drwNo (draw r) = drwNo (draw (hd rs))) \<longrightarrow> consensusDraw c = draw (hd rs)) \<and>
            (consensusDraw c = draw (hd rs) \<longleftrightarrow> drwNo (draw (hd rs)) = latestNo c))"
proof -
  obtain c w where pc: "pickConsensusLatest H rs = Inr c"
    and tgt: "is_target rs (latestNo c)"
    and win: "is_winner H (filter (\<lambda>r. drwNo (draw r) = latestNo c) rs) w"
    and cd: "consensusDraw c = draw w"
    and cc: "consensusCount c =
          support_sig H (filter (\<lambda>r. drwNo (draw r) = latestNo c) rs) (drawSig H (draw w))"
    and ag: "agreed c = (2 \<le> consensusCount c)"
    using pick_general[OF assms, of H] by blast
  note d = assms(3)
  have c1: "consensusDraw c = d' \<and> consensusCount c = length rs \<and> agreed c = (2 \<le> length rs)"
    if "\<forall>r\<in>set rs. draw r = d'" for d'
  proof -
    from case_identical[OF d tgt win that]
    have dw: "draw w = d'"
      and s: "support_sig H (filter (\<lambda>r. drwNo (draw r) = latestNo c) rs) (drawSig H (draw w)) = length rs"
      by blast+
    have "consensusCount c = length rs" using cc s by simp
    then show ?thesis using ag cd dw by simp
  qed
  have c2: "consensusDraw c = a \<and> consensusCount c = 2 \<and> agreed c"
    if "length rs = 3 \<and> length (filter (\<lambda>r. draw r = a) rs) = 2 \<and>
              (\<forall>r\<in>set rs. draw r \<noteq> a \<longrightarrow> drawSig H (draw r) \<noteq> drawSig H a)" for a
  proof -
    from that have l: "length rs = 3" "length (filter (\<lambda>r. draw r = a) rs) = 2"
      "\<forall>r\<in>set rs. draw r \<noteq> a \<longrightarrow> drawSig H (draw r) \<noteq> drawSig H a" by simp_all
    from case_two_of_three[OF d tgt win l]
    have dw: "draw w = a"
      and s: "support_sig H (filter (\<lambda>r. drwNo (draw r) = latestNo c) rs) (drawSig H (draw w)) = 2"
      by blast+
    have "consensusCount c = 2" using cc s by simp
    then show ?thesis using ag cd dw by simp
  qed
  have c3: "consensusDraw c = draw (hd (filter (\<lambda>r. drwNo (draw r) = latestNo c) rs)) \<and>
            consensusCount c = 1 \<and> \<not> agreed c \<and>
            ((\<forall>r\<in>set rs. drwNo (draw r) = drwNo (draw (hd rs))) \<longrightarrow> consensusDraw c = draw (hd rs)) \<and>
            (consensusDraw c = draw (hd rs) \<longleftrightarrow> drwNo (draw (hd rs)) = latestNo c)"
    if sg: "distinct (map (\<lambda>r. drawSig H (draw r)) rs)"
  proof -
    from case_all_distinct[OF d tgt win sg]
    have a: "w = hd (filter (\<lambda>r. drwNo (draw r) = latestNo c) rs)"
      and s: "support_sig H (filter (\<lambda>r. drwNo (draw r) = latestNo c) rs) (drawSig H (draw w)) = 1"
      by blast+
    have b: "consensusCount c = 1" using cc s by simp
    have e: "consensusDraw c = draw (hd rs) \<longleftrightarrow> drwNo (draw (hd rs)) = latestNo c"
    proof
      assume "consensusDraw c = draw (hd rs)"
      then have "drwNo (draw (hd rs)) = drwNo (draw w)" using cd by simp
      moreover have "drwNo (draw w) = latestNo c" using is_winner_mem[OF win] by simp
      ultimately show "drwNo (draw (hd rs)) = latestNo c" by simp
    next
      assume h: "drwNo (draw (hd rs)) = latestNo c"
      obtain x xs where rs: "rs = x # xs" using assms(1) by (cases rs) auto
      then have "hd (filter (\<lambda>r. drwNo (draw r) = latestNo c) rs) = hd rs" using h by simp
      then show "consensusDraw c = draw (hd rs)" using a cd by simp
    qed
    have "consensusDraw c = draw (hd rs)" if same: "\<forall>r\<in>set rs. drwNo (draw r) = drwNo (draw (hd rs))"
    proof -
      have "latestNo c \<in> (\<lambda>r. drwNo (draw r)) ` set rs"
        using tgt by (simp add: is_target_def Let_def)
      then have "latestNo c = drwNo (draw (hd rs))" using same by auto
      then have "filter (\<lambda>r. drwNo (draw r) = latestNo c) rs = rs"
        using same by (simp add: filter_id_conv)
      then show ?thesis using a cd by simp
    qed
    then show ?thesis using a b cd ag e by simp
  qed
  show ?thesis
    using pc tgt win cd cc ag c1 c2 c3
    by (intro exI[of _ c] exI[of _ w]) blast
qed

theorem pickConsensusLatest_consensus_witness:
  "map_sum id (\<lambda>c. (latestNo c, consensusDraw c, agreed c, consensusCount c))
     (pickConsensusLatest \<lparr>StringToNumber = (\<lambda>s. NaN), NumberToString = (\<lambda>x. []),
      Math_pow = (\<lambda>x y. NaN)\<rparr>
     [\<lparr>sourceId = ''smok95-raw'', draw = \<lparr>drwNo = Fin 1100, date = ''2023-12-30'', numbers = [Fin 17, Fin 26, Fin 29, Fin 30, Fin 31, Fin 43], bonus = Fin 12\<rparr>\<rparr>,
      \<lparr>sourceId = ''smok95-pages'', draw = \<lparr>drwNo = Fin 1100, date = ''2023-12-31'', numbers = [Fin 17, Fin 26, Fin 29, Fin 30, Fin 31, Fin 43], bonus = Fin 12\<rparr>\<rparr>,
      \<lparr>sourceId = ''smok95-jsdelivr'', draw = \<lparr>drwNo = Fin 1100, date = ''2023-12-30'', numbers = [Fin 17, Fin 26, Fin 29, Fin 30, Fin 31, Fin 43], bonus = Fin 12\<rparr>\<rparr>])
   = Inr (Fin 1100,
          \<lparr>drwNo = Fin 1100, date = ''2023-12-30'', numbers = [Fin 17, Fin 26, Fin 29, Fin 30, Fin 31, Fin 43], bonus = Fin 12\<rparr>,
          True, 2)"
  using pickConsensusLatest_consensus [of
     "[\<lparr>sourceId = ''smok95-raw'', draw = \<lparr>drwNo = Fin 1100, date = ''2023-12-30'', numbers = [Fin 17, Fin 26, Fin 29, Fin 30, Fin 31, Fin 43], bonus = Fin 12\<rparr>\<rparr>,
      \<lparr>sourceId = ''smok95-pages'', draw = \<lparr>drwNo = Fin 1100, date = ''2023-12-31'', numbers = [Fin 17, Fin 26, Fin 29, Fin 30, Fin 31, Fin 43], bonus = Fin 12\<rparr>\<rparr>,
      \<lparr>sourceId = ''smok95-jsdelivr'', draw = \<lparr>drwNo = Fin 1100, date = ''2023-12-30'', numbers = [Fin 17, Fin 26, Fin 29, Fin 30, Fin 31, Fin 43], bonus = Fin 12\<rparr>\<rparr>]"
     "\<lparr>StringToNumber = (\<lambda>s. NaN), NumberToString = (\<lambda>x. []),
      Math_pow = (\<lambda>x y. NaN)\<rparr>"]
  by (simp add: pickConsensusLatest_def group_by_def array_sort_def by_count_desc_def
      js_gt_def drawSig_def)

text \<open>
  The last case of the claim as the specification words it fails: three pairwise
  distinct records with the draw numbers 1098, 1099 and 1100 yield the third one, the
  record of the highest draw number, not the first-seen one.
\<close>

theorem pickConsensusLatest_first_seen_counterexample:
  "map_sum id (\<lambda>c. (latestNo c, consensusDraw c, agreed c, consensusCount c))
     (pickConsensusLatest \<lparr>StringToNumber = (\<lambda>s. NaN), NumberToString = (\<lambda>x. []),
      Math_pow = (\<lambda>x y. NaN)\<rparr>
     [\<lparr>sourceId = ''smok95-pages'', draw = \<lparr>drwNo = Fin 1098, date = ''2023-12-16'', numbers = [Fin 12, Fin 17, Fin 20, Fin 26, Fin 28, Fin 36], bonus = Fin 4\<rparr>\<rparr>,
      \<lparr>sourceId = ''smok95-raw'', draw = \<lparr>drwNo = Fin 1099, date = ''2023-12-23'', numbers = [Fin 3, Fin 20, Fin 28, Fin 38, Fin 40, Fin 43], bonus = Fin 4\<rparr>\<rparr>,
      \<lparr>sourceId = ''smok95-jsdelivr'', draw = \<lparr>drwNo = Fin 1100, date = ''2023-12-30'', numbers = [Fin 17, Fin 26, Fin 29, Fin 30, Fin 31, Fin 43], bonus = Fin 12\<rparr>\<rparr>])
   = Inr (Fin 1100,
          \<lparr>drwNo = Fin 1100, date = ''2023-12-30'', numbers = [Fin 17, Fin 26, Fin 29, Fin 30, Fin 31, Fin 43], bonus = Fin 12\<rparr>,
          False, 1)"
  by (simp add: pickConsensusLatest_def group_by_def array_sort_def by_count_desc_def
      js_gt_def drawSig_def)

section \<open>The statistics aggregator\<close>

text \<open>
  A counter is the object built by \<^verbatim>\<open>initCounterInt\<close>: a dictionary from the numbers 1 to
  45 to counts. \<^verbatim>\<open>counter[n] += w\<close> on a key that is absent adds to \<^verbatim>\<open>undefined\<close> and
  stores \<open>NaN\<close>.
\<close>

type_synonym counter = "jsnum \<rightharpoonup> jsnum"

record window =
  w_from :: "string option"
  w_to :: "string option"
  w_drawCount :: nat
  w_main :: counter
  w_bonus :: counter

record weighted_window =
  ww_from :: "string option"
  ww_to :: "string option"
  ww_drawCount :: nat
  ww_decay :: jsnum
  ww_main :: counter
  ww_bonus :: counter

record freq =
  overall_main :: counter
  overall_bonus :: counter
  recent :: "(nat \<times> window) list"
  recentWeighted :: "(nat \<times> weighted_window) list"

definition RECENT_WINDOWS :: "nat list" where
  "RECENT_WINDOWS = [10, 20, 30]"

definition DECAY :: jsnum where
  "DECAY = Fin (95 / 100)"

definition initCounterInt :: counter where
  "initCounterInt = fold (\<lambda>i c. c(Fin (of_nat i) \<mapsto> Fin 0)) [1..<46] Map.empty"

definition initCounterFloat :: counter where
  "initCounterFloat = fold (\<lambda>i c. c(Fin (of_nat i) \<mapsto> Fin 0)) [1..<46] Map.empty"

definition addCount :: "counter \<Rightarrow> jsnum \<Rightarrow> jsnum \<Rightarrow> counter" where
  "addCount counter n w =
     (if js_ge n (Fin 1) \<and> js_le n (Fin 45)
      then counter(n \<mapsto> js_add (case counter n of None \<Rightarrow> NaN | Some v \<Rightarrow> v) w)
      else counter)"

text \<open>
  The two statements of every counting loop: each main number of a draw, then its
  bonus, with weight \<open>w\<close>.
\<close>

definition count_main :: "jsnum \<Rightarrow> draw \<Rightarrow> counter \<Rightarrow> counter" where
  "count_main w d c = fold (\<lambda>n c. addCount c n w) (numbers d) c"

definition count_bonus :: "jsnum \<Rightarrow> draw \<Rightarrow> counter \<Rightarrow> counter" where
  "count_bonus w d c = addCount c (bonus d) w"

text \<open>\<^verbatim>\<open>draws.slice(-win)\<close>, and the dates of the first and last draw of a slice.\<close>

definition slice_last :: "nat \<Rightarrow> 'a list \<Rightarrow> 'a list" where
  "slice_last n xs = drop (length xs - n) xs"

definition first_date :: "draw list \<Rightarrow> string option" where
  "first_date slice = (case slice of [] \<Rightarrow> None | d # _ \<Rightarrow> Some (date d))"

definition last_date :: "draw list \<Rightarrow> string option" where
  "last_date slice = (case rev slice of [] \<Rightarrow> None | d # _ \<Rightarrow> Some (date d))"

text \<open>
  \<^verbatim>\<open>makeFreq\<close>. The objects \<^verbatim>\<open>recent\<close> and \<^verbatim>\<open>recentWeighted\<close> are listed by window
  size; the \<open>k\<close>-th newest draw of a window weighs \<^verbatim>\<open>Math.pow(DECAY, k)\<close>.
\<close>

definition makeFreq :: "host \<Rightarrow> draw list \<Rightarrow> freq" where
  "makeFreq H draws =
     (let overallMain = fold (count_main (Fin 1)) draws initCounterInt;
          overallBonus = fold (count_bonus (Fin 1)) draws initCounterInt;
          slice = (\<lambda>win. slice_last win draws);
          newestFirst = (\<lambda>win. zip [0..<length (slice win)] (rev (slice win)));
          weight = (\<lambda>k. Math_pow H DECAY (Fin (of_nat k)))
      in \<lparr>overall_main = overallMain, overall_bonus = overallBonus,
          recent = map (\<lambda>win. (win,
             \<lparr>w_from = first_date (slice win), w_to = last_date (slice win),
              w_drawCount = length (slice win),
              w_main = fold (count_main (Fin 1)) (slice win) initCounterInt,
              w_bonus = fold (count_bonus (Fin 1)) (slice win) initCounterInt\<rparr>)) RECENT_WINDOWS,
          recentWeighted = map (\<lambda>win. (win,
             \<lparr>ww_from = first_date (slice win), ww_to = last_date (slice win),
              ww_drawCount = length (slice win), ww_decay = DECAY,
              ww_main = fold (\<lambda>(k, d). count_main (weight k) d) (newestFirst win) initCounterFloat,
              ww_bonus = fold (\<lambda>(k, d). count_bonus (weight k) d) (newestFirst win) initCounterFloat\<rparr>))
             RECENT_WINDOWS\<rparr>)"

text \<open>A table that maps exactly the numbers 1 to 45, each to zero.\<close>

definition all_zero :: "counter \<Rightarrow> bool" where
  "all_zero c = (dom c = (\<lambda>i. Fin (of_nat i)) ` {1..45::nat} \<and> list_all (\<lambda>i. c (Fin (of_nat i)) = Some (Fin 0)) [1..<46])"

lemma init_lookup:
  "fold (\<lambda>i c. c(Fin (of_nat i) \<mapsto> Fin 0)) is m x =
     (if x \<in> (\<lambda>i. Fin (of_nat i)) ` set is then Some (Fin 0) else m x)"
  by (induction "is" arbitrary: m) auto

lemma initCounterInt_zero: "all_zero initCounterInt"
  unfolding all_zero_def initCounterInt_def
  by (auto simp: init_lookup list_all_iff dom_def atLeastLessThanSuc_atLeastAtMost[symmetric] simp del: upt_Suc split: if_splits)

lemma initCounterFloat_zero: "all_zero initCounterFloat"
  using initCounterInt_zero by (simp add: initCounterFloat_def initCounterInt_def)

text \<open>
  Claim C9. On an empty ledger \<^verbatim>\<open>makeFreq\<close> returns (it is a total function and has no
  error value) the overall tables for main and bonus numbers and, for each of the
  windows 10, 20 and 30, the raw and the decay-weighted tables, every one of them
  mapping each number from 1 to 45 to zero; each window has \<^verbatim>\<open>from\<close> and \<^verbatim>\<open>to\<close> null and
  the draw count 0.
\<close>

theorem makeFreq_empty:
  "makeFreq H [] =
   \<lparr>overall_main = initCounterInt, overall_bonus = initCounterInt,
    recent =
      [(10, \<lparr>w_from = None, w_to = None, w_drawCount = 0,
             w_main = initCounterInt, w_bonus = initCounterInt\<rparr>),
       (20, \<lparr>w_from = None, w_to = None, w_drawCount = 0,
             w_main = initCounterInt, w_bonus = initCounterInt\<rparr>),
       (30, \<lparr>w_from = None, w_to = None, w_drawCount = 0,
             w_main = initCounterInt, w_bonus = initCounterInt\<rparr>)],
    recentWeighted =
      [(10, \<lparr>ww_from = None, ww_to = None, ww_drawCount = 0, ww_decay = DECAY,
             ww_main = initCounterFloat, ww_bonus = initCounterFloat\<rparr>),
       (20, \<lparr>ww_from = None, ww_to = None, ww_drawCount = 0, ww_decay = DECAY,
             ww_main = initCounterFloat, ww_bonus = initCounterFloat\<rparr>),
       (30, \<lparr>ww_from = None, ww_to = None, ww_drawCount = 0, ww_decay = DECAY,
             ww_main = initCounterFloat, ww_bonus = initCounterFloat\<rparr>)]\<rparr>
   \<and> all_zero initCounterInt \<and> all_zero initCounterFloat"
proof -
  have "slice_last win ([] :: draw list) = []" for win by (simp add: slice_last_def)
  then show ?thesis
    using initCounterInt_zero initCounterFloat_zero
    by (simp add: makeFreq_def RECENT_WINDOWS_def first_date_def last_date_def)
qed

section \<open>The synchronization controller\<close>

text \<open>
  The three mirrors of \<^verbatim>\<open>SOURCES\<close>, in priority order. The urls of a source are
  functions of the source and are left out.
\<close>

datatype source = Pages | Raw | JsDelivr

fun source_id :: "source \<Rightarrow> string" where
  "source_id Pages = ''smok95-pages''"
| "source_id Raw = ''smok95-raw''"
| "source_id JsDelivr = ''smok95-jsdelivr''"

definition SOURCES :: "source list" where
  "SOURCES = [Pages, Raw, JsDelivr]"

definition BOOTSTRAP_GAP_THRESHOLD :: jsnum where
  "BOOTSTRAP_GAP_THRESHOLD = Fin 120"

definition VALIDATE_LAST_K :: jsnum where
  "VALIDATE_LAST_K = Fin 5"

text \<open>
  Everything a run reads from outside. \<open>ledger_file\<close> is what
  \<^verbatim>\<open>readJsonSafe(DRAWS_PATH, [])\<close> returns; a missing or unreadable file is the empty
  list. The ledgers covered are the arrays of records with the four fields that
  \<^verbatim>\<open>normalizeDraw\<close> builds, numbers in \<^verbatim>\<open>drwNo\<close>, \<^verbatim>\<open>numbers\<close> and \<^verbatim>\<open>bonus\<close> and a string in
  \<^verbatim>\<open>date\<close>. A file of another shape (no array, an entry that is no such record, a
  \<^verbatim>\<open>null\<close> where a number is expected) is not covered, nor is a failure of the file
  system when the run creates its data directory or writes its two files.
  The other fields answer \<^verbatim>\<open>fetchJsonGuarded\<close>, \<open>None\<close> when it throws after its
  retries: for the latest draw, for the bulk list, and for one draw, asked once per
  source and number during the incremental fill and once more during tail validation.
  The fetches of \<^verbatim>\<open>Promise.allSettled\<close> settle in an order that the run does not
  control: \<open>latest_order\<close> and \<open>tail_order\<close> give it. A world is well formed when
  the latest fetches that settle are those of the three sources, each once.
\<close>

record world =
  ledger_file :: "draw list"
  latest_json :: "source \<Rightarrow> json option"
  latest_order :: "source list"
  all_json :: "source \<Rightarrow> json option"
  draw_json :: "source \<Rightarrow> jsnum \<Rightarrow> json option"
  tail_json :: "source \<Rightarrow> jsnum \<Rightarrow> json option"
  tail_order :: "jsnum \<Rightarrow> source list"

definition wf_world :: "world \<Rightarrow> bool" where
  "wf_world W = (mset (latest_order W) = mset SOURCES)"

text \<open>
  The arithmetic of the script is that of doubles, the arithmetic above that of
  rationals. The two agree on the integers below \<open>2\<^sup>5\<^sup>2\<close>, where increments and
  differences of doubles are exact. A world is safe when every draw number that can
  enter the run is such an integer: those of the ledger, and those of the records that
  \<^verbatim>\<open>normalizeDraw\<close> accepts among the payloads of the sources. The results on whole runs
  are stated for safe worlds.
\<close>

definition safe_no :: "jsnum \<Rightarrow> bool" where
  "safe_no x = (case x of Fin q \<Rightarrow> of_int \<lfloor>q\<rfloor> = q \<and> \<bar>q\<bar> < 2 ^ 52 | _ \<Rightarrow> False)"

definition safe_json :: "host \<Rightarrow> json \<Rightarrow> bool" where
  "safe_json H j = (case normalizeDraw H j of Inr (Some d) \<Rightarrow> safe_no (drwNo d) | _ \<Rightarrow> True)"

definition safe_world :: "host \<Rightarrow> world \<Rightarrow> bool" where
  "safe_world H W =
     ((\<forall>d\<in>set (ledger_file W). safe_no (drwNo d)) \<and>
      (\<forall>src j. latest_json W src = Some j \<longrightarrow> safe_json H j) \<and>
      (\<forall>src arr. all_json W src = Some (JArr arr) \<longrightarrow> (\<forall>j\<in>set arr. safe_json H j)) \<and>
      (\<forall>src n j. draw_json W src n = Some j \<longrightarrow> safe_json H j) \<and>
      (\<forall>src n j. tail_json W src n = Some j \<longrightarrow> safe_json H j))"

record fetched_all =
  all_sourceId :: string
  all_draws :: "draw list"

definition tryLatestFromSource :: "host \<Rightarrow> world \<Rightarrow> source \<Rightarrow> error + fetched" where
  "tryLatestFromSource H W src =
     (case latest_json W src of
        None \<Rightarrow> Inl FetchFailed
      | Some obj \<Rightarrow>
          (case normalizeDraw H obj of
             Inl e \<Rightarrow> Inl e
           | Inr None \<Rightarrow> Inl (LatestInvalid (source_id src))
           | Inr (Some d) \<Rightarrow> Inr \<lparr>sourceId = source_id src, draw = d\<rparr>))"

definition tryAllFromSource :: "host \<Rightarrow> world \<Rightarrow> source \<Rightarrow> error + fetched_all" where
  "tryAllFromSource H W src =
     (case all_json W src of
        None \<Rightarrow> Inl FetchFailed
      | Some (JArr arr) \<Rightarrow>
          if arr = [] then Inl (AllJsonEmpty (source_id src))
          else
            (case collect (map (normalizeDraw H) arr) of
               Inl e \<Rightarrow> Inl e
             | Inr ds \<Rightarrow>
                 (let mapped = List.map_filter (\<lambda>d. d) ds
                  in if mapped = [] then Inl (AllJsonParsedZero (source_id src))
                     else Inr \<lparr>all_sourceId = source_id src,
                               all_draws = array_sort by_drwNo mapped\<rparr>))
      | Some _ \<Rightarrow> Inl (AllJsonEmpty (source_id src)))"

definition tryDrawFromSource ::
  "host \<Rightarrow> (source \<Rightarrow> jsnum \<Rightarrow> json option) \<Rightarrow> source \<Rightarrow> jsnum \<Rightarrow> error + fetched" where
  "tryDrawFromSource H net src n =
     (case net src n of
        None \<Rightarrow> Inl FetchFailed
      | Some obj \<Rightarrow>
          (case normalizeDraw H obj of
             Inl e \<Rightarrow> Inl e
           | Inr None \<Rightarrow> Inl (DrawInvalid (source_id src) n)
           | Inr (Some d) \<Rightarrow> Inr \<lparr>sourceId = source_id src, draw = d\<rparr>))"

text \<open>\<^verbatim>\<open>fetchLatestAllSources\<close>: results and errors in the order the fetches settle.\<close>

record latest_pack =
  results :: "fetched list"
  errors :: "(string \<times> error) list"

definition fetchLatestAllSources :: "host \<Rightarrow> world \<Rightarrow> latest_pack" where
  "fetchLatestAllSources H W =
     (let settled = map (\<lambda>src. (src, tryLatestFromSource H W src)) (latest_order W)
      in \<lparr>results = List.map_filter (\<lambda>(src, r). case r of Inr x \<Rightarrow> Some x | Inl e \<Rightarrow> None) settled,
          errors = List.map_filter
            (\<lambda>(src, r). case r of Inr x \<Rightarrow> None | Inl e \<Rightarrow> Some (source_id src, e)) settled\<rparr>)"

text \<open>
  The loop of \<^verbatim>\<open>fetchDrawWithFallback\<close> and \<^verbatim>\<open>fetchAllWithFallback\<close>: the first source
  that succeeds wins, otherwise the last error is thrown.
\<close>

fun try_each :: "(source \<Rightarrow> error + 'a) \<Rightarrow> source list \<Rightarrow> error option \<Rightarrow> error option + 'a" where
  "try_each f [] lastErr = Inl lastErr"
| "try_each f (src # rest) lastErr =
     (case f src of Inr r \<Rightarrow> Inr r | Inl e \<Rightarrow> try_each f rest (Some e))"

definition fetchDrawWithFallback ::
  "host \<Rightarrow> (source \<Rightarrow> jsnum \<Rightarrow> json option) \<Rightarrow> jsnum \<Rightarrow> error + fetched" where
  "fetchDrawWithFallback H net n =
     (case try_each (\<lambda>src. tryDrawFromSource H net src n) SOURCES None of
        Inr r \<Rightarrow> Inr r
      | Inl (Some lastErr) \<Rightarrow> Inl lastErr
      | Inl None \<Rightarrow> Inl (DrawFetchFailed n))"

definition fetchAllWithFallback :: "host \<Rightarrow> world \<Rightarrow> error + fetched_all" where
  "fetchAllWithFallback H W =
     (case try_each (tryAllFromSource H W) SOURCES None of
        Inr r \<Rightarrow> Inr r
      | Inl (Some lastErr) \<Rightarrow> Inl lastErr
      | Inl None \<Rightarrow> Inl AllFetchFailed)"

text \<open>
  The health report. A reason is the string pushed on \<^verbatim>\<open>health.reasons\<close>, with the draw
  number it embeds as an argument; a note is the string of \<^verbatim>\<open>health.used.note\<close>.
\<close>

datatype status = Ok | Degraded

datatype mode =
  LocalOnly | BootstrapAll | IncrementalFromLocal | IncrementalFromScratch | Incremental

datatype run_note = NoLatestReachable | GapIs jsnum | BootstrapFailed | StoppedAt jsnum

datatype reason =
    latest_unavailable_all_sources_using_local_cache
  | latest_consensus_not_2of3
  | all_json_last_draw_no_mismatch_with_latest
  | all_json_last_signature_mismatch_with_consensus
  | bootstrap_all_failed_try_incremental
  | incremental_fetch_failed_at jsnum
  | tail_no_2of3_consensus jsnum
  | tail_patched_from_consensus jsnum
  | local_last_is_behind_latest

record used =
  mode :: "mode option"
  used_sourceId :: "string option"
  used_note :: "run_note option"

record health =
  status :: status
  reasons :: "reason list"
  used :: used
  latestConsensus :: "consensus option"
  latestFetchErrors :: "(string \<times> error) list"
  attempted :: nat
  patched :: nat
  mismatched :: nat

text \<open>
  The two files written at the end of a run: the ledger, and the statistics with the
  health report (schema version, time stamp and endpoints are constants of no concern
  here).
\<close>

record payload =
  health :: health
  lastDraw :: draw
  totalDraws :: nat
  stats :: freq

record run_output =
  draws_written :: "draw list"
  freq_written :: payload

text \<open>The variables that the phases of \<^verbatim>\<open>main\<close> update: \<^verbatim>\<open>draws\<close> and \<^verbatim>\<open>health\<close>.\<close>

record run_state =
  draws :: "draw list"
  hl :: health

definition degrade :: "reason \<Rightarrow> health \<Rightarrow> health" where
  "degrade r h = h\<lparr>status := Degraded, reasons := reasons h @ [r]\<rparr>"

text \<open>
  \<^verbatim>\<open>ds.length ? Math.max(...ds.map(d => Number(d?.drwNo)).filter(Number.isFinite)) : 0\<close>,
  which the script computes three times.
\<close>

definition lastNoOf :: "draw list \<Rightarrow> jsnum" where
  "lastNoOf ds = (if length ds > 0 then Math_max (filter isFinite (map drwNo ds)) else Fin 0)"

definition js_strict_eq :: "jsnum \<Rightarrow> jsnum \<Rightarrow> bool" where
  "js_strict_eq a b = (a = b \<and> a \<noteq> NaN)"

definition last_elem :: "'a list \<Rightarrow> 'a option" where
  "last_elem xs = (case rev xs of [] \<Rightarrow> None | x # _ \<Rightarrow> Some x)"

text \<open>
  \<^verbatim>\<open>for (let n = a; n <= b; n++) body\<close>, where the body continues, breaks or throws.
  Nothing bounds the loop when a bound is infinite, so not returning is the value
  \<open>None\<close>.
\<close>

datatype 's step = Continue 's | Break 's | Throw error

partial_function (option) for_upto ::
  "(jsnum \<Rightarrow> 's \<Rightarrow> 's step) \<Rightarrow> jsnum \<Rightarrow> jsnum \<Rightarrow> 's \<Rightarrow> (error + 's) option" where
  "for_upto body n hi s =
     (if js_le n hi then
        (case body n s of
           Continue s' \<Rightarrow> for_upto body (js_add n (Fin 1)) hi s'
         | Break s' \<Rightarrow> Some (Inr s')
         | Throw e \<Rightarrow> Some (Inl e))
      else Some (Inr s))"

declare for_upto.simps [code]

text \<open>The payload and the two \<^verbatim>\<open>writeJson\<close> calls that end a run.\<close>

definition write_out :: "host \<Rightarrow> draw list \<Rightarrow> draw \<Rightarrow> health \<Rightarrow> run_output" where
  "write_out H ds lst h =
     \<lparr>draws_written = ds,
      freq_written = \<lparr>health = h, lastDraw = lst, totalDraws = length ds, stats = makeFreq H ds\<rparr>\<rparr>"

text \<open>No latest draw from any source, but a local ledger: statistics from the ledger as it is.\<close>

definition local_only :: "host \<Rightarrow> draw list \<Rightarrow> health \<Rightarrow> error + run_output" where
  "local_only H existing h =
     (let h' = (degrade latest_unavailable_all_sources_using_local_cache h)
                 \<lparr>used := \<lparr>mode = Some LocalOnly, used_sourceId = Some ''local-cache'',
                            used_note = Some NoLatestReachable\<rparr>\<rparr>;
          ds = array_sort by_drwNo existing
      in case last_elem ds of
           None \<Rightarrow> Inl TypeError
         | Some lst \<Rightarrow> Inr (write_out H ds lst h'))"

text \<open>
  Phase 2. The \<^verbatim>\<open>catch\<close> of the bootstrap comes first: it is entered when every source
  fails the bulk fetch (and would be on any exception of the \<^verbatim>\<open>try\<close> block).
\<close>

definition bootstrap_failed :: "draw list \<Rightarrow> jsnum \<Rightarrow> health \<Rightarrow> run_state" where
  "bootstrap_failed existing existingLastNo h =
     (let h' = degrade bootstrap_all_failed_try_incremental h
      in if js_gt existingLastNo (Fin 0)
         then \<lparr>draws = existing,
               hl = h'\<lparr>used := \<lparr>mode = Some IncrementalFromLocal,
                                used_sourceId = Some ''local-cache'', used_note = Some BootstrapFailed\<rparr>\<rparr>\<rparr>
         else \<lparr>draws = [],
               hl = h'\<lparr>used := \<lparr>mode = Some IncrementalFromScratch,
                                used_sourceId = Some ''multi'', used_note = Some BootstrapFailed\<rparr>\<rparr>\<rparr>)"

definition needBootstrap :: "jsnum \<Rightarrow> jsnum \<Rightarrow> bool" where
  "needBootstrap existingLastNo gap =
     (existingLastNo = Fin 0 \<or> js_gt gap BOOTSTRAP_GAP_THRESHOLD)"

definition choose_strategy ::
  "host \<Rightarrow> world \<Rightarrow> draw list \<Rightarrow> jsnum \<Rightarrow> consensus \<Rightarrow> health \<Rightarrow> run_state" where
  "choose_strategy H W existing existingLastNo c h =
     (let gap = js_sub (latestNo c) existingLastNo
      in if needBootstrap existingLastNo gap then
           (case fetchAllWithFallback H W of
              Inl e \<Rightarrow> bootstrap_failed existing existingLastNo h
            | Inr bulk \<Rightarrow>
                (let h1 = h\<lparr>used := \<lparr>mode = Some BootstrapAll,
                                     used_sourceId = Some (all_sourceId bulk),
                                     used_note = Some (GapIs gap)\<rparr>\<rparr>
                 in case last_elem (all_draws bulk) of
                      None \<Rightarrow> bootstrap_failed existing existingLastNo h1
                    | Some lst \<Rightarrow>
                        if \<not> js_strict_eq (drwNo lst) (latestNo c)
                        then \<lparr>draws = all_draws bulk,
                              hl = degrade all_json_last_draw_no_mismatch_with_latest h1\<rparr>
                        else if drawSig H lst \<noteq> drawSig H (consensusDraw c)
                        then \<lparr>draws = mergeByNo (all_draws bulk) [consensusDraw c],
                              hl = degrade all_json_last_signature_mismatch_with_consensus h1\<rparr>
                        else \<lparr>draws = all_draws bulk, hl = h1\<rparr>))
         else \<lparr>draws = array_sort by_drwNo existing,
               hl = h\<lparr>used := \<lparr>mode = Some Incremental, used_sourceId = Some ''multi'',
                               used_note = Some (GapIs gap)\<rparr>\<rparr>\<rparr>)"

text \<open>Phase 3, the incremental fill up to the consensus draw number.\<close>

definition fill_body :: "host \<Rightarrow> world \<Rightarrow> jsnum \<Rightarrow> run_state \<Rightarrow> run_state step" where
  "fill_body H W n st =
     (case fetchDrawWithFallback H (draw_json W) n of
        Inr got \<Rightarrow> Continue (st\<lparr>draws := mergeByNo (draws st) [draw got]\<rparr>)
      | Inl e \<Rightarrow>
          Break (st\<lparr>hl := (degrade (incremental_fetch_failed_at n) (hl st))
                      \<lparr>used := (used (hl st))\<lparr>used_note := Some (StoppedAt n)\<rparr>\<rparr>\<rparr>))"

definition incremental_fill ::
  "host \<Rightarrow> world \<Rightarrow> jsnum \<Rightarrow> run_state \<Rightarrow> (error + run_state) option" where
  "incremental_fill H W target st =
     (let currentLastNo = lastNoOf (draws st)
      in if js_lt currentLastNo target
         then for_upto (fill_body H W) (js_add currentLastNo (Fin 1)) target st
         else Some (Inr st))"

text \<open>Phase 4, validation of the last \<^verbatim>\<open>VALIDATE_LAST_K\<close> draw numbers against a majority.\<close>

definition tail_body :: "host \<Rightarrow> world \<Rightarrow> jsnum \<Rightarrow> run_state \<Rightarrow> run_state step" where
  "tail_body H W n st =
     (let h1 = (hl st)\<lparr>attempted := attempted (hl st) + 1\<rparr>;
          fetched = List.map_filter
            (\<lambda>src. case tryDrawFromSource H (tail_json W) src n of
                      Inr r \<Rightarrow> Some r | Inl e \<Rightarrow> None) (tail_order W n)
      in if length fetched < 2 then Continue (st\<lparr>hl := h1\<rparr>)
         else
           (let bySig = group_by (\<lambda>r. drawSig H (draw r)) fetched;
                ranked = array_sort by_count_desc bySig
            in case ranked of
                 [] \<Rightarrow> Throw TypeError
               | (bestSig, bestArr) # _ \<Rightarrow>
                   if length bestArr < 2
                   then Continue (st\<lparr>hl := degrade (tail_no_2of3_consensus n) h1\<rparr>)
                   else
                     (case bestArr of
                        [] \<Rightarrow> Throw TypeError
                      | r # _ \<Rightarrow>
                          (let bestDraw = draw r;
                               local = find (\<lambda>d. js_strict_eq (drwNo d) n) (draws st)
                           in if (case local of
                                    None \<Rightarrow> True
                                  | Some l \<Rightarrow> drawSig H l \<noteq> bestSig)
                              then Continue
                                \<lparr>draws = mergeByNo (draws st) [bestDraw],
                                 hl = degrade (tail_patched_from_consensus n)
                                        (h1\<lparr>mismatched := mismatched h1 + 1,
                                            patched := patched h1 + 1\<rparr>)\<rparr>
                              else Continue (st\<lparr>hl := h1\<rparr>)))))"

definition validate_tail :: "host \<Rightarrow> world \<Rightarrow> run_state \<Rightarrow> (error + run_state) option" where
  "validate_tail H W st =
     (let lastNoAfter = lastNoOf (draws st);
          startValidate =
            Math_max [Fin 1, js_add (js_sub lastNoAfter VALIDATE_LAST_K) (Fin 1)]
      in for_upto (tail_body H W) startValidate lastNoAfter st)"

text \<open>Phase 5.\<close>

definition finalize :: "host \<Rightarrow> jsnum \<Rightarrow> run_state \<Rightarrow> error + run_output" where
  "finalize H target st =
     (let ds = array_sort by_drwNo (draws st)
      in case last_elem ds of
           None \<Rightarrow> Inl NoDrawsAfterUpdate
         | Some lst \<Rightarrow>
             (let h = (if js_lt (drwNo lst) target
                       then degrade local_last_is_behind_latest (hl st) else hl st)
              in Inr (write_out H ds lst h)))"

definition health0 :: health where
  "health0 = \<lparr>status = Ok, reasons = [],
              used = \<lparr>mode = None, used_sourceId = None, used_note = None\<rparr>,
              latestConsensus = None, latestFetchErrors = [],
              attempted = 0, patched = 0, mismatched = 0\<rparr>"

text \<open>
  \<^verbatim>\<open>main\<close>: \<open>Some (Inr out)\<close> when it returns having written \<open>out\<close>, \<open>Some (Inl e)\<close>
  when it throws \<open>e\<close>, \<open>None\<close> when it does not return.
\<close>

definition main :: "host \<Rightarrow> world \<Rightarrow> (error + run_output) option" where
  "main H W =
     (let existing = ledger_file W;
          existingLastNo = lastNoOf existing;
          latestPack = fetchLatestAllSources H W;
          h = health0\<lparr>latestFetchErrors := errors latestPack\<rparr>
      in if length (results latestPack) = 0 then
           (if length existing > 0 then Some (local_only H existing h)
            else Some (Inl NoSourcesNoCache))
         else
           (case pickConsensusLatest H (results latestPack) of
              Inl e \<Rightarrow> Some (Inl e)
            | Inr c \<Rightarrow>
                (let h1 = h\<lparr>latestConsensus := Some c\<rparr>;
                     h2 = (if \<not> agreed c then degrade latest_consensus_not_2of3 h1 else h1);
                     st = choose_strategy H W existing existingLastNo c h2
                 in case incremental_fill H W (latestNo c) st of
                      None \<Rightarrow> None
                    | Some (Inl e) \<Rightarrow> Some (Inl e)
                    | Some (Inr st1) \<Rightarrow>
                        (let st2 = st1\<lparr>draws := mergeByNo (draws st1) [consensusDraw c]\<rparr>
                         in case validate_tail H W st2 of
                              None \<Rightarrow> None
                            | Some (Inl e) \<Rightarrow> Some (Inl e)
                            | Some (Inr st3) \<Rightarrow> Some (finalize H (latestNo c) st3)))))"

text \<open>
  \<^verbatim>\<open>main().catch((e) => { console.error(e); process.exit(1); })\<close>: the process exits
  with 1 when \<^verbatim>\<open>main\<close> throws and with 0 when it returns.
\<close>

definition exit_code :: "error + run_output \<Rightarrow> nat" where
  "exit_code r = (case r of Inl e \<Rightarrow> 1 | Inr out \<Rightarrow> 0)"

text \<open>
  The run took the bulk list of a source as its ledger: a consensus was found, a
  bootstrap was needed and some source delivered a usable \<^verbatim>\<open>all.json\<close>.
\<close>

definition bootstrapped :: "host \<Rightarrow> world \<Rightarrow> bool" where
  "bootstrapped H W =
     (case pickConsensusLatest H (results (fetchLatestAllSources H W)) of
        Inl e \<Rightarrow> False
      | Inr c \<Rightarrow>
          needBootstrap (lastNoOf (ledger_file W))
            (js_sub (latestNo c) (lastNoOf (ledger_file W))) \<and>
          (case fetchAllWithFallback H W of Inl e \<Rightarrow> False | Inr bulk \<Rightarrow> True))"

text \<open>
  The run dropped its ledger and started the incremental fill from nothing: a consensus
  was found, a bootstrap was needed, no source delivered a usable \<^verbatim>\<open>all.json\<close>, and the
  highest draw number of the ledger is not positive.
\<close>

definition restarted :: "host \<Rightarrow> world \<Rightarrow> bool" where
  "restarted H W =
     (case pickConsensusLatest H (results (fetchLatestAllSources H W)) of
        Inl e \<Rightarrow> False
      | Inr c \<Rightarrow>
          needBootstrap (lastNoOf (ledger_file W))
            (js_sub (latestNo c) (lastNoOf (ledger_file W))) \<and>
          (case fetchAllWithFallback H W of Inl e \<Rightarrow> True | Inr bulk \<Rightarrow> False) \<and>
          \<not> js_gt (lastNoOf (ledger_file W)) (Fin 0))"

subsection \<open>The incremental fill, number by number\<close>

text \<open>
  The draw numbers that the loop of phase 3 visits when nothing stops it: \<open>a\<close>,
  \<open>a + 1\<close> and so on, as long as they do not exceed \<open>b\<close>.
\<close>

definition upto_numbers :: "rat \<Rightarrow> rat \<Rightarrow> jsnum list" where
  "upto_numbers a b = map (\<lambda>i. Fin (a + of_nat i)) [0..<nat (\<lfloor>b - a\<rfloor> + 1)]"

text \<open>
  The incremental fill as the specification describes it, to be compared with the loop
  of the script: the draw numbers are taken one by one; a record that is fetched is
  merged at once; the first number that no source delivers ends the fill, marks the run
  degraded and is noted.
\<close>

fun fill_result :: "host \<Rightarrow> world \<Rightarrow> jsnum list \<Rightarrow> run_state \<Rightarrow> run_state" where
  "fill_result H W [] st = st"
| "fill_result H W (n # ns) st =
     (case fetchDrawWithFallback H (draw_json W) n of
        Inr got \<Rightarrow> fill_result H W ns (st\<lparr>draws := mergeByNo (draws st) [draw got]\<rparr>)
      | Inl e \<Rightarrow>
          st\<lparr>hl := (degrade (incremental_fetch_failed_at n) (hl st))
                      \<lparr>used := (used (hl st))\<lparr>used_note := Some (StoppedAt n)\<rparr>\<rparr>\<rparr>)"

text \<open>
  Whether some source delivers draw number \<open>n\<close> during the fill, and the record that
  is delivered (a list of one record, or of none).
\<close>

definition fetch_ok :: "host \<Rightarrow> world \<Rightarrow> jsnum \<Rightarrow> bool" where
  "fetch_ok H W n =
     (case fetchDrawWithFallback H (draw_json W) n of Inr got \<Rightarrow> True | Inl e \<Rightarrow> False)"

definition fetched_draw :: "host \<Rightarrow> world \<Rightarrow> jsnum \<Rightarrow> draw list" where
  "fetched_draw H W n =
     (case fetchDrawWithFallback H (draw_json W) n of Inr got \<Rightarrow> [draw got] | Inl e \<Rightarrow> [])"

text \<open>The health report after the fill stopped at draw number \<open>n\<close>.\<close>

definition stopped_at :: "jsnum \<Rightarrow> health \<Rightarrow> health" where
  "stopped_at n h =
     (degrade (incremental_fetch_failed_at n) h)\<lparr>used := (used h)\<lparr>used_note := Some (StoppedAt n)\<rparr>\<rparr>"

subsection \<open>Example runs\<close>

text \<open>
  A host whose conversions are constant, one record of a ledger, three payloads as the
  sources publish them, and five worlds. In \<open>world_fatal\<close> no source answers and there
  is no ledger; in \<open>world_local\<close> no source answers and the ledger holds draw 1. In
  \<open>world_incremental\<close> the ledger holds draw 1, every source reports draw 2 as the
  latest and the second source delivers it. In \<open>world_bootstrap\<close> the ledger holds
  draw 1, every source reports draw 200 as the latest and the second source delivers a
  bulk list that holds draw 200 only. In \<open>world_stopped\<close> the ledger holds draw 1,
  every source reports draw 4 as the latest, draw 2 and draw 4 can be fetched and draw 3
  cannot. \<open>summary\<close> reads the draw numbers written, the status and the reasons off
  an output.
\<close>

definition host_stub :: host where
  "host_stub = \<lparr>StringToNumber = (\<lambda>s. NaN), NumberToString = (\<lambda>x. []),
                 Math_pow = (\<lambda>x y. NaN)\<rparr>"

definition draw_1 :: draw where
  "draw_1 = \<lparr>drwNo = Fin 1, date = ''2002-12-07'',
              numbers = [Fin 10, Fin 23, Fin 29, Fin 33, Fin 37, Fin 40], bonus = Fin 16\<rparr>"

definition json_2 :: json where
  "json_2 = JObj [(''draw_no'', JNum (Fin 2)),
                  (''numbers'', JArr [JNum (Fin 9), JNum (Fin 13), JNum (Fin 21),
                                      JNum (Fin 25), JNum (Fin 32), JNum (Fin 42)]),
                  (''bonus_no'', JNum (Fin 2)),
                  (''date'', JStr ''2002-12-14'')]"

definition json_4 :: json where
  "json_4 = JObj [(''draw_no'', JNum (Fin 4)),
                  (''numbers'', JArr [JNum (Fin 14), JNum (Fin 27), JNum (Fin 30),
                                      JNum (Fin 31), JNum (Fin 40), JNum (Fin 42)]),
                  (''bonus_no'', JNum (Fin 2)),
                  (''date'', JStr ''2002-12-28'')]"

definition json_200 :: json where
  "json_200 = JObj [(''draw_no'', JNum (Fin 200)),
                    (''numbers'', JArr [JNum (Fin 5), JNum (Fin 6), JNum (Fin 13),
                                        JNum (Fin 14), JNum (Fin 17), JNum (Fin 20)]),
                    (''bonus_no'', JNum (Fin 7)),
                    (''date'', JStr ''2006-09-30'')]"

definition world_fatal :: world where
  "world_fatal =
     \<lparr>ledger_file = [],
      latest_json = (\<lambda>src. None),
      latest_order = [Pages, Raw, JsDelivr],
      all_json = (\<lambda>src. None),
      draw_json = (\<lambda>src n. None),
      tail_json = (\<lambda>src n. None),
      tail_order = (\<lambda>n. [Pages, Raw, JsDelivr])\<rparr>"

definition world_local :: world where
  "world_local =
     \<lparr>ledger_file = [draw_1],
      latest_json = (\<lambda>src. None),
      latest_order = [Pages, Raw, JsDelivr],
      all_json = (\<lambda>src. None),
      draw_json = (\<lambda>src n. None),
      tail_json = (\<lambda>src n. None),
      tail_order = (\<lambda>n. [Pages, Raw, JsDelivr])\<rparr>"

definition world_incremental :: world where
  "world_incremental =
     \<lparr>ledger_file = [draw_1],
      latest_json = (\<lambda>src. Some json_2),
      latest_order = [Pages, Raw, JsDelivr],
      all_json = (\<lambda>src. None),
      draw_json = (\<lambda>src n. if src = Raw \<and> n = Fin 2 then Some json_2 else None),
      tail_json = (\<lambda>src n. None),
      tail_order = (\<lambda>n. [Pages, Raw, JsDelivr])\<rparr>"

definition world_bootstrap :: world where
  "world_bootstrap =
     \<lparr>ledger_file = [draw_1],
      latest_json = (\<lambda>src. Some json_200),
      latest_order = [Pages, Raw, JsDelivr],
      all_json = (\<lambda>src. if src = Raw then Some (JArr [json_200]) else None),
      draw_json = (\<lambda>src n. None),
      tail_json = (\<lambda>src n. None),
      tail_order = (\<lambda>n. [Pages, Raw, JsDelivr])\<rparr>"

definition world_stopped :: world where
  "world_stopped =
     \<lparr>ledger_file = [draw_1],
      latest_json = (\<lambda>src. Some json_4),
      latest_order = [Pages, Raw, JsDelivr],
      all_json = (\<lambda>src. None),
      draw_json = (\<lambda>src n. if src = Raw \<and> n = Fin 2 then Some json_2
                             else if n = Fin 4 then Some json_4 else None),
      tail_json = (\<lambda>src n. None),
      tail_order = (\<lambda>n. [Pages, Raw, JsDelivr])\<rparr>"

definition summary :: "run_output \<Rightarrow> jsnum list \<times> status \<times> reason list" where
  "summary out =
     (map drwNo (draws_written out), status (health (freq_written out)),
      reasons (health (freq_written out)))"


subsection \<open>Loops that end\<close>

lemma for_upto_rule:
  fixes I :: "rat \<Rightarrow> 's \<Rightarrow> bool"
  assumes init: "I a s"
    and cont: "\<And>n s s'. I n s \<Longrightarrow> n \<le> b \<Longrightarrow> body (Fin n) s = Continue s' \<Longrightarrow> I (n + 1) s'"
    and brk: "\<And>n s s'. I n s \<Longrightarrow> n \<le> b \<Longrightarrow> body (Fin n) s = Break s' \<Longrightarrow> Q (Inr s')"
    and thr: "\<And>n s e. I n s \<Longrightarrow> n \<le> b \<Longrightarrow> body (Fin n) s = Throw e \<Longrightarrow> Q (Inl e)"
    and exit: "\<And>n s. I n s \<Longrightarrow> b < n \<Longrightarrow> Q (Inr s)"
  shows "\<exists>r. for_upto body (Fin a) (Fin b) s = Some r \<and> Q r"
proof -
  have "\<And>a s. I a s \<Longrightarrow> b - a < of_nat k \<Longrightarrow> \<exists>r. for_upto body (Fin a) (Fin b) s = Some r \<and> Q r" for k
  proof (induction k)
    case 0
    then have "b < a" by simp
    then show ?case using exit[OF "0.prems"(1)] by (subst for_upto.simps) (simp add: js_le_def)
  next
    case (Suc k)
    show ?case
    proof (cases "a \<le> b")
      case False
      then show ?thesis using exit[OF Suc.prems(1)] by (subst for_upto.simps) (simp add: js_le_def)
    next
      case True
      then have le: "js_le (Fin a) (Fin b)" by (simp add: js_le_def)
      show ?thesis
      proof (cases "body (Fin a) s")
        case (Continue s')
        have "I (a + 1) s'" using cont[OF Suc.prems(1) True Continue] .
        moreover have "b - (a + 1) < of_nat k" using Suc.prems(2) by simp
        ultimately have "\<exists>r. for_upto body (Fin (a + 1)) (Fin b) s' = Some r \<and> Q r"
          by (rule Suc.IH)
        then show ?thesis using le Continue by (subst for_upto.simps) simp
      next
        case (Break s')
        then show ?thesis using le brk[OF Suc.prems(1) True Break] by (subst for_upto.simps) simp
      next
        case (Throw e)
        then show ?thesis using le thr[OF Suc.prems(1) True Throw] by (subst for_upto.simps) simp
      qed
    qed
  qed
  moreover obtain k :: nat where "b - a < of_nat k" using reals_Archimedean2 by blast
  ultimately show ?thesis using init by blast
qed

lemma for_upto_empty: "\<not> js_le n hi \<Longrightarrow> for_upto body n hi s = Some (Inr s)"
  by (subst for_upto.simps) simp

subsection \<open>Highest draw number\<close>

lemma js_max2_cases:
  "a \<noteq> NaN \<Longrightarrow> b \<noteq> NaN \<Longrightarrow>
     js_max2 a b \<noteq> NaN \<and> (js_max2 a b = a \<or> js_max2 a b = b) \<and>
     js_le a (js_max2 a b) \<and> js_le b (js_max2 a b)"
  by (cases a; cases b) (auto simp: js_le_def)

lemma foldl_js_max2:
  "acc \<noteq> NaN \<Longrightarrow> NaN \<notin> set xs \<Longrightarrow>
     foldl js_max2 acc xs \<noteq> NaN \<and> foldl js_max2 acc xs \<in> insert acc (set xs) \<and>
     js_le acc (foldl js_max2 acc xs) \<and> (\<forall>x\<in>set xs. js_le x (foldl js_max2 acc xs))"
proof (induction xs arbitrary: acc)
  case Nil
  then show ?case by (cases acc) (auto simp: js_le_def)
next
  case (Cons x xs)
  have x: "x \<noteq> NaN" and xs: "NaN \<notin> set xs" using Cons.prems by auto
  note m = js_max2_cases[OF Cons.prems(1) x]
  have ih: "foldl js_max2 (js_max2 acc x) xs \<noteq> NaN \<and>
      foldl js_max2 (js_max2 acc x) xs \<in> insert (js_max2 acc x) (set xs) \<and>
      js_le (js_max2 acc x) (foldl js_max2 (js_max2 acc x) xs) \<and>
      (\<forall>y\<in>set xs. js_le y (foldl js_max2 (js_max2 acc x) xs))"
    using Cons.IH[of "js_max2 acc x"] m xs by blast
  have "js_le acc (foldl js_max2 (js_max2 acc x) xs)"
    using m ih js_le_trans by blast
  moreover have "js_le x (foldl js_max2 (js_max2 acc x) xs)"
    using m ih js_le_trans by blast
  moreover have "foldl js_max2 (js_max2 acc x) xs \<in> insert acc (set (x # xs))"
    using m ih by auto
  ultimately show ?case using ih by simp
qed

lemma Math_max_finite:
  assumes "xs \<noteq> []" "\<forall>x\<in>set xs. isFinite x"
  shows "Math_max xs \<in> set xs \<and> (\<forall>x\<in>set xs. js_le x (Math_max xs))"
proof -
  have nn: "NaN \<notin> set xs" using assms(2) by auto
  from foldl_js_max2[of NegInf xs] nn
  have a: "Math_max xs \<in> insert NegInf (set xs)" and b: "\<forall>x\<in>set xs. js_le x (Math_max xs)"
    by (simp_all add: Math_max_def)
  obtain x where x: "x \<in> set xs" using assms(1) by (cases xs) auto
  then have "isFinite x" "js_le x (Math_max xs)" using assms(2) b by auto
  then have "Math_max xs \<noteq> NegInf" by (cases x) (auto simp: js_le_def)
  then show ?thesis using a b by auto
qed

text \<open>The finite draw numbers of a list of records.\<close>

definition keysF :: "draw list \<Rightarrow> jsnum set" where
  "keysF ds = {k \<in> drwNo ` set ds. isFinite k}"

lemma lastNoOf_Nil: "lastNoOf [] = Fin 0"
  by (simp add: lastNoOf_def)

lemma lastNoOf_finite:
  assumes "keysF ds \<noteq> {}"
  shows "lastNoOf ds \<in> keysF ds \<and> (\<forall>k\<in>keysF ds. js_le k (lastNoOf ds))"
proof -
  let ?xs = "filter isFinite (map drwNo ds)"
  have s: "set ?xs = keysF ds" by (auto simp: keysF_def)
  have ne: "?xs \<noteq> []" using assms unfolding s[symmetric] by (simp only: set_empty not_False_eq_True)
  have "ds \<noteq> []" using assms by (auto simp: keysF_def)
  then have "lastNoOf ds = Math_max ?xs" by (simp add: lastNoOf_def)
  then show ?thesis using Math_max_finite[OF ne] s by auto
qed

lemma lastNoOf_no_finite: "ds \<noteq> [] \<Longrightarrow> keysF ds = {} \<Longrightarrow> lastNoOf ds = NegInf"
proof -
  assume a: "ds \<noteq> []" "keysF ds = {}"
  let ?xs = "filter isFinite (map drwNo ds)"
  have s: "set ?xs = keysF ds" by (auto simp: keysF_def)
  have "set ?xs = {}" unfolding s by (rule a(2))
  then have "?xs = []" by (rule iffD1[OF set_empty])
  then show ?thesis using a(1) by (simp add: lastNoOf_def Math_max_def)
qed

lemma lastNoOf_cases:
  "(ds = [] \<and> lastNoOf ds = Fin 0) \<or> (ds \<noteq> [] \<and> keysF ds = {} \<and> lastNoOf ds = NegInf)
   \<or> (keysF ds \<noteq> {} \<and> lastNoOf ds \<in> keysF ds)"
proof (cases "ds = []")
  case True
  then show ?thesis by (simp add: lastNoOf_Nil)
next
  case False
  show ?thesis
  proof (cases "keysF ds = {}")
    case True
    then show ?thesis using False lastNoOf_no_finite by simp
  next
    case False
    then show ?thesis using lastNoOf_finite by simp
  qed
qed

lemma keysF_finite: "k \<in> keysF ds \<Longrightarrow> isFinite k"
  by (simp add: keysF_def)

lemma keysF_array_sort: "keysF (array_sort cmp ds) = keysF ds"
  by (simp add: keysF_def set_array_sort)

lemma keysF_mergeByNo: "keysF (mergeByNo L X) = keysF L \<union> keysF X"
  using keys_mergeByNo[of L X] by (auto simp: keysF_def)

lemma keys_mergeByNo_F: "drwNo ` set (mergeByNo L X) = keysF L \<union> keysF X"
  using keys_mergeByNo[of L X] by (auto simp: keysF_def)

lemma keysF_ascending: "ascending_no ds \<Longrightarrow> keysF ds = drwNo ` set ds"
  by (auto simp: keysF_def ascending_no_def list_all_iff)

subsection \<open>Fetching\<close>

lemma tryLatest_finite: "tryLatestFromSource H W src = Inr r \<Longrightarrow> isFinite (drwNo (draw r)) \<and> sourceId r = source_id src"
  by (auto simp: tryLatestFromSource_def split: option.splits sum.splits dest: normalizeDraw_finite)

lemma tryDraw_finite: "tryDrawFromSource H net src n = Inr r \<Longrightarrow> isFinite (drwNo (draw r)) \<and> sourceId r = source_id src"
  by (auto simp: tryDrawFromSource_def split: option.splits sum.splits dest: normalizeDraw_finite)

lemma try_each_Inr: "try_each f srcs e = Inr r \<Longrightarrow> \<exists>src\<in>set srcs. f src = Inr r"
  by (induction srcs arbitrary: e) (auto split: sum.splits)

lemma fetchDraw_finite: "fetchDrawWithFallback H net n = Inr r \<Longrightarrow> isFinite (drwNo (draw r))"
  by (auto simp: fetchDrawWithFallback_def split: sum.splits option.splits
      dest!: try_each_Inr dest: tryDraw_finite)

lemma source_id_inj: "inj source_id"
proof (rule injI)
  fix a b assume "source_id a = source_id b"
  then show "a = b" by (cases a; cases b) simp_all
qed

lemma map_filter_map: "List.map_filter g (map f xs) = List.map_filter (g \<circ> f) xs"
  by (induction xs) (auto split: option.splits)

lemma latest_results:
  "results (fetchLatestAllSources H W) =
     List.map_filter (\<lambda>src. case tryLatestFromSource H W src of Inr x \<Rightarrow> Some x | Inl e \<Rightarrow> None)
       (latest_order W)"
  unfolding fetchLatestAllSources_def Let_def
  by (simp only: latest_pack.simps map_filter_map) (simp add: comp_def)

text \<open>
  What the phases after the choice of strategy preserve: the finite draw numbers
  already in the ledger, the absence of the reason \<^verbatim>\<open>local_last_is_behind_latest\<close>, the
  recorded consensus, the reasons already pushed and a degraded status.
\<close>

definition quiet :: "health \<Rightarrow> bool" where
  "quiet h = (local_last_is_behind_latest \<notin> set (reasons h))"

definition carries :: "run_state \<Rightarrow> run_state \<Rightarrow> bool" where
  "carries st st' =
     (keysF (draws st) \<subseteq> keysF (draws st') \<and> (quiet (hl st) \<longrightarrow> quiet (hl st')) \<and>
      latestConsensus (hl st') = latestConsensus (hl st) \<and>
      set (reasons (hl st)) \<subseteq> set (reasons (hl st')) \<and>
      (status (hl st) = Degraded \<longrightarrow> status (hl st') = Degraded))"

lemma carries_refl: "carries st st"
  by (simp add: carries_def)

lemma carries_trans: "carries a b \<Longrightarrow> carries b c \<Longrightarrow> carries a c"
  by (auto simp: carries_def)

lemma quiet_degrade: "r \<noteq> local_last_is_behind_latest \<Longrightarrow> quiet (degrade r h) = quiet h"
  by (auto simp: quiet_def degrade_def)

lemma latestConsensus_degrade: "latestConsensus (degrade r h) = latestConsensus h"
  by (simp add: degrade_def)

lemma reasons_degrade: "set (reasons (degrade r h)) = insert r (set (reasons h))"
  by (simp add: degrade_def)

lemma status_degrade: "status (degrade r h) = Degraded"
  by (simp add: degrade_def)

subsection \<open>One step of each loop\<close>

lemma fill_body_cases:
  "(\<exists>st'. fill_body H W n st = Continue st' \<and> carries st st') \<or>
   (\<exists>st'. fill_body H W n st = Break st' \<and> carries st st')"
proof (cases "fetchDrawWithFallback H (draw_json W) n")
  case (Inl e)
  then show ?thesis
    by (auto simp: fill_body_def carries_def quiet_def degrade_def)
next
  case (Inr got)
  then show ?thesis
    by (simp add: fill_body_def carries_def keysF_mergeByNo)
qed

lemma group_by_Nil_iff: "group_by key rs = [] \<longleftrightarrow> rs = []"
proof -
  have "fst ` set (group_by key rs) = key ` set rs" by (rule set_keys_group_by)
  then show ?thesis by (metis image_is_empty set_empty)
qed

lemma tail_body_cases:
  assumes "ascending_no (draws st)"
  shows "\<exists>st'. tail_body H W n st = Continue st' \<and> ascending_no (draws st') \<and> carries st st'"
proof -
  define h1 where "h1 = (hl st)\<lparr>attempted := attempted (hl st) + 1\<rparr>"
  define fetched where "fetched = List.map_filter
            (\<lambda>src. case tryDrawFromSource H (tail_json W) src n of
                      Inr r \<Rightarrow> Some r | Inl e \<Rightarrow> None) (tail_order W n)"
  define ranked where "ranked = array_sort by_count_desc (group_by (\<lambda>r. drawSig H (draw r)) fetched)"
  have q1: "quiet h1 = quiet (hl st)" "latestConsensus h1 = latestConsensus (hl st)"
    "reasons h1 = reasons (hl st)" "status h1 = status (hl st)"
    by (simp_all add: h1_def quiet_def)
  have tb: "tail_body H W n st =
     (if length fetched < 2 then Continue (st\<lparr>hl := h1\<rparr>)
      else (case ranked of
                 [] \<Rightarrow> Throw TypeError
               | (bestSig, bestArr) # _ \<Rightarrow>
                   if length bestArr < 2
                   then Continue (st\<lparr>hl := degrade (tail_no_2of3_consensus n) h1\<rparr>)
                   else
                     (case bestArr of
                        [] \<Rightarrow> Throw TypeError
                      | r # _ \<Rightarrow>
                          (let bestDraw = draw r;
                               local = find (\<lambda>d. js_strict_eq (drwNo d) n) (draws st)
                           in if (case local of
                                    None \<Rightarrow> True
                                  | Some l \<Rightarrow> drawSig H l \<noteq> bestSig)
                              then Continue
                                \<lparr>draws = mergeByNo (draws st) [bestDraw],
                                 hl = degrade (tail_patched_from_consensus n)
                                        (h1\<lparr>mismatched := mismatched h1 + 1,
                                            patched := patched h1 + 1\<rparr>)\<rparr>
                              else Continue (st\<lparr>hl := h1\<rparr>)))))"
    unfolding tail_body_def Let_def h1_def fetched_def ranked_def ..
  show ?thesis
  proof (cases "length fetched < 2")
    case True
    then show ?thesis using assms q1 by (simp add: tb carries_def)
  next
    case False
    then have "fetched \<noteq> []" by auto
    then have "ranked \<noteq> []" by (simp add: ranked_def array_sort_Nil_iff group_by_Nil_iff)
    then obtain bestSig bestArr rest where r: "ranked = (bestSig, bestArr) # rest"
      by (cases ranked) auto
    show ?thesis
    proof (cases "length bestArr < 2")
      case True
      then show ?thesis using assms q1 False r
        by (auto simp: tb carries_def quiet_degrade latestConsensus_degrade reasons_degrade
            status_degrade)
    next
      case big: False
      then obtain r0 rs0 where b: "bestArr = r0 # rs0" by (cases bestArr) auto
      have q2: "quiet (degrade (tail_patched_from_consensus n)
                 (h1\<lparr>mismatched := mismatched h1 + 1, patched := patched h1 + 1\<rparr>)) = quiet (hl st)"
        "latestConsensus (degrade (tail_patched_from_consensus n)
                 (h1\<lparr>mismatched := mismatched h1 + 1, patched := patched h1 + 1\<rparr>))
           = latestConsensus (hl st)"
        "set (reasons (hl st)) \<subseteq> set (reasons (degrade (tail_patched_from_consensus n)
                 (h1\<lparr>mismatched := mismatched h1 + 1, patched := patched h1 + 1\<rparr>)))"
        "status (degrade (tail_patched_from_consensus n)
                 (h1\<lparr>mismatched := mismatched h1 + 1, patched := patched h1 + 1\<rparr>)) = Degraded"
        using q1 by (auto simp: quiet_def degrade_def)
      show ?thesis
        using assms q1 q2 False r big b
        by (simp add: tb carries_def Let_def ascending_mergeByNo keysF_mergeByNo del: degrade_def)
    qed
  qed
qed

text \<open>A ledger from which the fill loop starts at a finite draw number.\<close>

definition fill_ready :: "draw list \<Rightarrow> bool" where
  "fill_ready ds = (ds = [] \<or> keysF ds \<noteq> {})"

lemma fill_ready_lastNo: "fill_ready ds \<Longrightarrow> isFinite (lastNoOf ds)"
  using lastNoOf_cases[of ds] keysF_finite by (auto simp: fill_ready_def)

lemma isFinite_Fin: "isFinite x \<Longrightarrow> \<exists>q. x = Fin q"
  by (cases x) auto

lemma incremental_fill_returns:
  assumes "fill_ready (draws st)" "isFinite target"
  shows "\<exists>st1. incremental_fill H W target st = Some (Inr st1) \<and> carries st st1"
proof -
  obtain c where c: "lastNoOf (draws st) = Fin c"
    using fill_ready_lastNo[OF assms(1)] isFinite_Fin by blast
  obtain t where t: "target = Fin t" using assms(2) isFinite_Fin by blast
  show ?thesis
  proof (cases "js_lt (Fin c) (Fin t)")
    case False
    then show ?thesis by (simp add: incremental_fill_def c t carries_refl)
  next
    case True
    have "\<exists>r. for_upto (fill_body H W) (Fin (c + 1)) (Fin t) st = Some r \<and>
              (\<exists>st1. r = Inr st1 \<and> carries st st1)"
    proof (rule for_upto_rule[where I = "\<lambda>n s. carries st s"])
      show "carries st st" by (rule carries_refl)
    next
      fix n s s' assume "carries st s" "fill_body H W (Fin n) s = Continue s'"
      then show "carries st s'" using fill_body_cases[of H W "Fin n" s] carries_trans by auto
    next
      fix n s s' assume "carries st s" "fill_body H W (Fin n) s = Break s'"
      then show "\<exists>st1. Inr s' = Inr st1 \<and> carries st st1"
        using fill_body_cases[of H W "Fin n" s] carries_trans by auto
    next
      fix n s e assume "fill_body H W (Fin n) s = Throw e"
      then show "\<exists>st1. Inl e = Inr st1 \<and> carries st st1"
        using fill_body_cases[of H W "Fin n" s] by auto
    next
      fix n s assume "carries st s"
      then show "\<exists>st1. Inr s = Inr st1 \<and> carries st st1" by simp
    qed
    then show ?thesis using True by (auto simp: incremental_fill_def c t)
  qed
qed

lemma ascending_lastNo:
  assumes "ascending_no ds" "ds \<noteq> []"
  shows "isFinite (lastNoOf ds)"
proof -
  have "keysF ds \<noteq> {}" using assms by (cases ds) (auto simp: keysF_ascending)
  then show ?thesis using lastNoOf_finite keysF_finite by blast
qed

lemma Math_max_two: "Math_max [Fin a, Fin b] = Fin (max a b)"
  by (simp add: Math_max_def max_def)

lemma validate_tail_returns:
  assumes "ascending_no (draws st)" "draws st \<noteq> []"
  shows "\<exists>st3. validate_tail H W st = Some (Inr st3) \<and> ascending_no (draws st3) \<and> carries st st3"
proof -
  obtain l where l: "lastNoOf (draws st) = Fin l"
    using ascending_lastNo[OF assms] isFinite_Fin by blast
  have start: "Math_max [Fin 1, js_add (js_sub (Fin l) VALIDATE_LAST_K) (Fin 1)] = Fin (max 1 (l - 5 + 1))"
    by (simp add: VALIDATE_LAST_K_def Math_max_two)
  have "\<exists>r. for_upto (tail_body H W) (Fin (max 1 (l - 5 + 1))) (Fin l) st = Some r \<and>
            (\<exists>st3. r = Inr st3 \<and> ascending_no (draws st3) \<and> carries st st3)"
  proof (rule for_upto_rule[where I = "\<lambda>n s. ascending_no (draws s) \<and> carries st s"])
    show "ascending_no (draws st) \<and> carries st st" using assms(1) carries_refl by simp
  next
    fix n s s' assume "ascending_no (draws s) \<and> carries st s" "tail_body H W (Fin n) s = Continue s'"
    then show "ascending_no (draws s') \<and> carries st s'"
      using tail_body_cases[of s H W "Fin n"] carries_trans by auto
  next
    fix n s s' assume "ascending_no (draws s) \<and> carries st s" "tail_body H W (Fin n) s = Break s'"
    then show "\<exists>st3. Inr s' = Inr st3 \<and> ascending_no (draws st3) \<and> carries st st3"
      using tail_body_cases[of s H W "Fin n"] by auto
  next
    fix n s e assume "ascending_no (draws s) \<and> carries st s" "tail_body H W (Fin n) s = Throw e"
    then show "\<exists>st3. Inl e = Inr st3 \<and> ascending_no (draws st3) \<and> carries st st3"
      using tail_body_cases[of s H W "Fin n"] by auto
  next
    fix n s assume "ascending_no (draws s) \<and> carries st s"
    then show "\<exists>st3. Inr s = Inr st3 \<and> ascending_no (draws st3) \<and> carries st st3" by simp
  qed
  then have "\<exists>st3. for_upto (tail_body H W) (Fin (max 1 (l - 5 + 1))) (Fin l) st = Some (Inr st3) \<and>
            ascending_no (draws st3) \<and> carries st st3" by blast
  then show ?thesis unfolding validate_tail_def Let_def l start .
qed

lemma last_elem_Some: "xs \<noteq> [] \<Longrightarrow> last_elem xs = Some (last xs)"
  by (cases xs rule: rev_cases) (auto simp: last_elem_def)

lemma last_elem_None: "last_elem xs = None \<longleftrightarrow> xs = []"
  by (cases xs rule: rev_cases) (auto simp: last_elem_def)

lemma sorted_last_max:
  fixes f :: "'a \<Rightarrow> rat"
  shows "sorted (map f xs) \<Longrightarrow> x \<in> set xs \<Longrightarrow> f x \<le> f (last xs)"
proof (induction xs)
  case Nil
  then show ?case by simp
next
  case (Cons a xs)
  then show ?case by (cases "xs = []") auto
qed

lemma array_sort_last:
  assumes fin: "list_all (\<lambda>d. isFinite (drwNo d)) ds" and x: "x \<in> set ds"
  shows "\<not> js_lt (drwNo (last (array_sort by_drwNo ds))) (drwNo x)"
proof -
  let ?f = "\<lambda>d. fin_val (drwNo d)"
  let ?s = "array_sort by_drwNo ds"
  have eq: "?s = sort_key ?f ds" by (rule array_sort_sort_key[OF fin])
  have srt: "sorted (map ?f ?s)" unfolding eq by simp
  have xs: "x \<in> set ?s" using x by (simp add: set_array_sort)
  have le: "?f x \<le> ?f (last ?s)" by (rule sorted_last_max[OF srt xs])
  have ne: "?s \<noteq> []" using x by (auto simp: array_sort_Nil_iff)
  have "last ?s \<in> set ds" using last_in_set[OF ne] by (simp add: set_array_sort)
  then have "isFinite (drwNo (last ?s))" "isFinite (drwNo x)" using fin x by (auto simp: list_all_iff)
  then show ?thesis using le by (simp add: js_lt_fin_val)
qed

lemma finalize_returns:
  assumes asc: "ascending_no (draws st)" and t: "target \<in> keysF (draws st)"
  shows "\<exists>out. finalize H target st = Inr out \<and> set (draws_written out) = set (draws st) \<and>
      health (freq_written out) = hl st \<and>
      last_elem (draws_written out) = Some (lastDraw (freq_written out)) \<and>
      (\<forall>d\<in>set (draws_written out). js_le (drwNo d) (drwNo (lastDraw (freq_written out)))) \<and>
      \<not> js_lt (drwNo (lastDraw (freq_written out))) target"
proof -
  let ?ds = "array_sort by_drwNo (draws st)"
  obtain x where x: "x \<in> set (draws st)" "drwNo x = target" using t by (auto simp: keysF_def)
  have fin: "list_all (\<lambda>d. isFinite (drwNo d)) (draws st)" using asc by (simp add: ascending_no_def)
  have ne: "?ds \<noteq> []" using x by (auto simp: array_sort_Nil_iff)
  have le: "last_elem ?ds = Some (last ?ds)" by (rule last_elem_Some[OF ne])
  have nb: "\<not> js_lt (drwNo (last ?ds)) target" using array_sort_last[OF fin x(1)] x(2) by simp
  have "last ?ds \<in> set (draws st)" using last_in_set[OF ne] by (simp add: set_array_sort)
  then have fl: "isFinite (drwNo (last ?ds))" using fin by (simp add: list_all_iff)
  have mx: "js_le (drwNo d) (drwNo (last ?ds))" if "d \<in> set (draws st)" for d
  proof -
    have "isFinite (drwNo d)" using fin that by (simp add: list_all_iff)
    then show ?thesis using array_sort_last[OF fin that] fl
      by (cases "drwNo d"; cases "drwNo (last ?ds)") (auto simp: js_le_def)
  qed
  show ?thesis
    unfolding finalize_def Let_def le option.case using nb mx
    by (simp add: write_out_def set_array_sort le)
qed

subsection \<open>The strategy chosen\<close>

lemma set_map_filter: "set (List.map_filter f xs) = {y. \<exists>x\<in>set xs. f x = Some y}"
  by (induction xs) (auto split: option.splits)

lemma map_filter_Nil_iff: "List.map_filter f xs = [] \<longleftrightarrow> (\<forall>x\<in>set xs. f x = None)"
  by (induction xs) (auto split: option.splits)

lemma tryAll_props:
  assumes "tryAllFromSource H W src = Inr bulk"
  shows "all_draws bulk \<noteq> [] \<and> list_all (\<lambda>d. isFinite (drwNo d)) (all_draws bulk)"
proof -
  obtain arr ds where arr: "all_json W src = Some (JArr arr)" "arr \<noteq> []"
    "collect (map (normalizeDraw H) arr) = Inr ds"
    "List.map_filter (\<lambda>d. d) ds \<noteq> []"
    "all_draws bulk = array_sort by_drwNo (List.map_filter (\<lambda>d. d) ds)"
    using assms
    by (auto simp: tryAllFromSource_def Let_def split: option.splits json.splits if_splits sum.splits)
  have m: "map (normalizeDraw H) arr = map Inr ds" using arr(3) by (rule collect_Inr)
  have "isFinite (drwNo d)" if "d \<in> set (List.map_filter (\<lambda>d. d) ds)" for d
  proof -
    from that have "Some d \<in> set ds" by (auto simp: set_map_filter)
    then have "Inr (Some d) \<in> set (map (normalizeDraw H) arr)" unfolding m by simp
    then obtain it where "normalizeDraw H it = Inr (Some d)" by auto
    then show ?thesis by (rule normalizeDraw_finite)
  qed
  then show ?thesis using arr(4,5)
    by (simp add: array_sort_Nil_iff list_all_iff set_array_sort)
qed

lemma fetchAll_props:
  assumes "fetchAllWithFallback H W = Inr bulk"
  shows "all_draws bulk \<noteq> [] \<and> list_all (\<lambda>d. isFinite (drwNo d)) (all_draws bulk)"
proof -
  have "try_each (tryAllFromSource H W) SOURCES None = Inr bulk"
    using assms by (auto simp: fetchAllWithFallback_def split: sum.splits option.splits)
  then obtain src where "tryAllFromSource H W src = Inr bulk"
    by (auto dest: try_each_Inr)
  then show ?thesis by (rule tryAll_props)
qed

lemma all_finite_keysF:
  "list_all (\<lambda>d. isFinite (drwNo d)) ds \<Longrightarrow> keysF ds = drwNo ` set ds"
  by (auto simp: keysF_def list_all_iff)

lemma positive_has_keys: "js_gt (lastNoOf ds) (Fin 0) \<Longrightarrow> keysF ds \<noteq> {}"
  using lastNoOf_cases[of ds] by (auto simp: js_gt_def)

lemma no_bootstrap_has_keys:
  assumes "\<not> needBootstrap (lastNoOf ds) (js_sub (Fin t) (lastNoOf ds))"
  shows "keysF ds \<noteq> {}"
proof (rule ccontr)
  assume "\<not> keysF ds \<noteq> {}"
  then have "lastNoOf ds = Fin 0 \<or> lastNoOf ds = NegInf" using lastNoOf_cases[of ds] by auto
  then show False using assms
    by (auto simp: needBootstrap_def js_gt_def BOOTSTRAP_GAP_THRESHOLD_def)
qed

lemma bootstrap_failed_props:
  "fill_ready (draws (bootstrap_failed existing (lastNoOf existing) h)) \<and>
   (quiet h \<longrightarrow> quiet (hl (bootstrap_failed existing (lastNoOf existing) h))) \<and>
   latestConsensus (hl (bootstrap_failed existing (lastNoOf existing) h)) = latestConsensus h \<and>
   (js_gt (lastNoOf existing) (Fin 0) \<longrightarrow> draws (bootstrap_failed existing (lastNoOf existing) h) = existing)"
  using positive_has_keys[of existing]
  by (auto simp: bootstrap_failed_def Let_def fill_ready_def quiet_def degrade_def)

lemma choose_strategy_props:
  assumes t: "latestNo c = Fin t"
    and st_def: "st = choose_strategy H W existing (lastNoOf existing) c h"
  shows "fill_ready (draws st) \<and> (quiet h \<longrightarrow> quiet (hl st)) \<and>
         latestConsensus (hl st) = latestConsensus h"
proof (cases "needBootstrap (lastNoOf existing) (js_sub (latestNo c) (lastNoOf existing))")
  case False
  then have k: "keysF existing \<noteq> {}" using no_bootstrap_has_keys[of existing t] t by simp
  have "st = \<lparr>draws = array_sort by_drwNo existing,
               hl = h\<lparr>used := \<lparr>mode = Some Incremental, used_sourceId = Some ''multi'',
                               used_note = Some (GapIs (js_sub (latestNo c) (lastNoOf existing)))\<rparr>\<rparr>\<rparr>"
    using False by (simp add: st_def choose_strategy_def Let_def)
  then show ?thesis using k by (simp add: fill_ready_def keysF_array_sort quiet_def)
next
  case nb: True
  show ?thesis
  proof (cases "fetchAllWithFallback H W")
    case (Inl e)
    then have "st = bootstrap_failed existing (lastNoOf existing) h"
      using nb by (simp add: st_def choose_strategy_def Let_def)
    then show ?thesis using bootstrap_failed_props[of existing h] by simp
  next
    case (Inr bulk)
    note fp = fetchAll_props[OF Inr]
    then have le: "last_elem (all_draws bulk) = Some (last (all_draws bulk))"
      by (simp add: last_elem_Some)
    have kb: "keysF (all_draws bulk) \<noteq> {}"
      using fp by (cases "all_draws bulk") (auto simp: all_finite_keysF)
    let ?h1 = "h\<lparr>used := \<lparr>mode = Some BootstrapAll, used_sourceId = Some (all_sourceId bulk),
                    used_note = Some (GapIs (js_sub (latestNo c) (lastNoOf existing)))\<rparr>\<rparr>"
    have q: "quiet ?h1 = quiet h" by (simp add: quiet_def)
    have "st = (if \<not> js_strict_eq (drwNo (last (all_draws bulk))) (latestNo c)
                        then \<lparr>draws = all_draws bulk,
                              hl = degrade all_json_last_draw_no_mismatch_with_latest ?h1\<rparr>
                        else if drawSig H (last (all_draws bulk)) \<noteq> drawSig H (consensusDraw c)
                        then \<lparr>draws = mergeByNo (all_draws bulk) [consensusDraw c],
                              hl = degrade all_json_last_signature_mismatch_with_consensus ?h1\<rparr>
                        else \<lparr>draws = all_draws bulk, hl = ?h1\<rparr>)"
      using nb Inr le by (simp add: st_def choose_strategy_def Let_def)
    then show ?thesis using kb q
      by (auto simp: fill_ready_def keysF_mergeByNo quiet_degrade latestConsensus_degrade)
  qed
qed

lemma choose_strategy_keeps:
  assumes "\<not> (needBootstrap (lastNoOf existing) (js_sub (latestNo c) (lastNoOf existing))
             \<and> (\<exists>bulk. fetchAllWithFallback H W = Inr bulk))"
    and "needBootstrap (lastNoOf existing) (js_sub (latestNo c) (lastNoOf existing))
           \<longrightarrow> js_gt (lastNoOf existing) (Fin 0)"
  shows "keysF existing \<subseteq> keysF (draws (choose_strategy H W existing (lastNoOf existing) c h))"
proof (cases "needBootstrap (lastNoOf existing) (js_sub (latestNo c) (lastNoOf existing))")
  case False
  then show ?thesis by (simp add: choose_strategy_def Let_def keysF_array_sort)
next
  case True
  then obtain e where "fetchAllWithFallback H W = Inl e"
    using assms(1) by (cases "fetchAllWithFallback H W") auto
  then have "choose_strategy H W existing (lastNoOf existing) c h
      = bootstrap_failed existing (lastNoOf existing) h"
    using True by (simp add: choose_strategy_def Let_def)
  then show ?thesis using bootstrap_failed_props[of existing h] assms(2) True by simp
qed

lemma choose_strategy_bootstrapped:
  assumes "needBootstrap (lastNoOf existing) (js_sub (latestNo c) (lastNoOf existing))"
    and "fetchAllWithFallback H W = Inr bulk"
  shows "drwNo ` set (all_draws bulk) \<subseteq> keysF (draws (choose_strategy H W existing (lastNoOf existing) c h))"
proof -
  note fp = fetchAll_props[OF assms(2)]
  then have le: "last_elem (all_draws bulk) = Some (last (all_draws bulk))"
    by (simp add: last_elem_Some)
  have k: "keysF (all_draws bulk) = drwNo ` set (all_draws bulk)"
    using fp by (simp add: all_finite_keysF)
  show ?thesis
    using assms le k by (auto simp: choose_strategy_def Let_def keysF_mergeByNo)
qed

subsection \<open>The latest results and their consensus\<close>

lemma distinct_SOURCES: "distinct SOURCES"
  by (simp add: SOURCES_def)

lemma map_sourceId_results:
  "map sourceId (List.map_filter (\<lambda>src. case tryLatestFromSource H W src of Inr x \<Rightarrow> Some x | Inl e \<Rightarrow> None) srcs)
     = map source_id (filter (\<lambda>src. \<exists>r. tryLatestFromSource H W src = Inr r) srcs)"
  by (induction srcs) (auto split: sum.splits dest: tryLatest_finite)

lemma results_props:
  assumes "wf_world W"
  shows "(\<forall>r\<in>set (results (fetchLatestAllSources H W)). isFinite (drwNo (draw r))) \<and>
     distinct (map sourceId (results (fetchLatestAllSources H W))) \<and>
     (results (fetchLatestAllSources H W) = [] \<longleftrightarrow>
        (\<forall>src\<in>set SOURCES. \<exists>e. tryLatestFromSource H W src = Inl e))"
proof -
  have ms: "mset (latest_order W) = mset SOURCES" using assms by (simp add: wf_world_def)
  then have d: "distinct (latest_order W)"
    using distinct_SOURCES by (metis mset_eq_imp_distinct_iff)
  have s: "set (latest_order W) = set SOURCES" using ms by (rule mset_eq_setD)
  have "\<exists>src. tryLatestFromSource H W src = Inr r"
    if "r \<in> set (results (fetchLatestAllSources H W))" for r
  proof -
    from that obtain src where
      "(case tryLatestFromSource H W src of Inr x \<Rightarrow> Some x | Inl e \<Rightarrow> None) = Some r"
      unfolding latest_results set_map_filter by auto
    then show ?thesis by (cases "tryLatestFromSource H W src") auto
  qed
  then have a: "\<forall>r\<in>set (results (fetchLatestAllSources H W)). isFinite (drwNo (draw r))"
    using tryLatest_finite by blast
  have "distinct (map source_id (filter (\<lambda>src. \<exists>r. tryLatestFromSource H W src = Inr r) (latest_order W)))"
    using d source_id_inj by (simp add: distinct_map inj_on_def inj_def)
  then have b: "distinct (map sourceId (results (fetchLatestAllSources H W)))"
    by (simp only: latest_results map_sourceId_results)
  have c: "results (fetchLatestAllSources H W) = [] \<longleftrightarrow>
        (\<forall>src\<in>set SOURCES. \<exists>e. tryLatestFromSource H W src = Inl e)"
    unfolding latest_results map_filter_Nil_iff s
    by (intro ball_cong refl) (auto split: sum.splits)
  show ?thesis using a b c by blast
qed

lemma consensus_props:
  assumes "rs \<noteq> []" "\<forall>r\<in>set rs. isFinite (drwNo (draw r))" "distinct (map sourceId rs)"
  shows "\<exists>c. pickConsensusLatest H rs = Inr c \<and> isFinite (latestNo c) \<and>
           drwNo (consensusDraw c) = latestNo c"
proof -
  obtain c w where pc: "pickConsensusLatest H rs = Inr c"
    and tgt: "is_target rs (latestNo c)"
    and win: "is_winner H (filter (\<lambda>r. drwNo (draw r) = latestNo c) rs) w"
    and cd: "consensusDraw c = draw w"
    using pick_general[OF assms, of H] by blast
  have "latestNo c \<in> (\<lambda>r. drwNo (draw r)) ` set rs" using tgt by (simp add: is_target_def Let_def)
  then have f: "isFinite (latestNo c)" using assms(2) by auto
  have "w \<in> set (filter (\<lambda>r. drwNo (draw r) = latestNo c) rs)" by (rule is_winner_mem[OF win])
  then have "drwNo (draw w) = latestNo c" by simp
  then show ?thesis using pc f cd by simp
qed



subsection \<open>A run with at least one latest result\<close>

lemma main_online_fill:
  assumes wf: "wf_world W" and ne: "results (fetchLatestAllSources H W) \<noteq> []"
  shows "\<exists>c st out h st1. pickConsensusLatest H (results (fetchLatestAllSources H W)) = Inr c \<and>
      isFinite (latestNo c) \<and>
      st = choose_strategy H W (ledger_file W) (lastNoOf (ledger_file W)) c h \<and>
      fill_ready (draws st) \<and>
      incremental_fill H W (latestNo c) st = Some (Inr st1) \<and>
      keysF (draws st1) \<subseteq> drwNo ` set (draws_written out) \<and>
      set (reasons (hl st1)) \<subseteq> set (reasons (health (freq_written out))) \<and>
      (status (hl st1) = Degraded \<longrightarrow> status (health (freq_written out)) = Degraded) \<and>
      main H W = Some (Inr out) \<and>
      keysF (draws st) \<union> {latestNo c} \<subseteq> drwNo ` set (draws_written out) \<and>
      quiet (health (freq_written out)) \<and>
      latestConsensus (health (freq_written out)) = Some c \<and>
      last_elem (draws_written out) = Some (lastDraw (freq_written out)) \<and>
      (\<forall>d\<in>set (draws_written out). js_le (drwNo d) (drwNo (lastDraw (freq_written out)))) \<and>
      \<not> js_lt (drwNo (lastDraw (freq_written out))) (latestNo c)"
proof -
  let ?rs = "results (fetchLatestAllSources H W)"
  note rp = results_props[OF wf, of H]
  obtain c where pc: "pickConsensusLatest H ?rs = Inr c" and fc: "isFinite (latestNo c)"
    and cd: "drwNo (consensusDraw c) = latestNo c"
    using consensus_props[OF ne, of H] rp by blast
  obtain t where t: "latestNo c = Fin t" using fc isFinite_Fin by blast
  define h where "h = health0\<lparr>latestFetchErrors := errors (fetchLatestAllSources H W)\<rparr>"
  define h1 where "h1 = h\<lparr>latestConsensus := Some c\<rparr>"
  define h2 where "h2 = (if \<not> agreed c then degrade latest_consensus_not_2of3 h1 else h1)"
  define st where "st = choose_strategy H W (ledger_file W) (lastNoOf (ledger_file W)) c h2"
  have q2: "quiet h2" by (simp add: h2_def h1_def h_def health0_def quiet_def degrade_def)
  have lc2: "latestConsensus h2 = Some c" by (simp add: h2_def h1_def degrade_def)
  have fr: "fill_ready (draws st)" and q: "quiet (hl st)" and lcs: "latestConsensus (hl st) = Some c"
    using choose_strategy_props[OF t st_def] q2 lc2 by simp_all
  obtain st1 where f1: "incremental_fill H W (latestNo c) st = Some (Inr st1)" and c1: "carries st st1"
    using incremental_fill_returns[OF fr fc] by blast
  define st2 where "st2 = st1\<lparr>draws := mergeByNo (draws st1) [consensusDraw c]\<rparr>"
  have asc2: "ascending_no (draws st2)" by (simp add: st2_def ascending_mergeByNo)
  have "keysF [consensusDraw c] = {latestNo c}" using cd fc by (auto simp: keysF_def)
  then have k2: "keysF (draws st2) = keysF (draws st1) \<union> {latestNo c}"
    by (simp add: st2_def keysF_mergeByNo)
  then have ne2: "draws st2 \<noteq> []" by (auto simp: keysF_def)
  have "hl st2 = hl st1" by (simp add: st2_def)
  then have c2: "carries st1 st2" using k2 by (auto simp: carries_def)
  obtain st3 where v3: "validate_tail H W st2 = Some (Inr st3)" and asc3: "ascending_no (draws st3)"
    and c3: "carries st2 st3"
    using validate_tail_returns[OF asc2 ne2] by blast
  have c13: "carries st st3" using c1 c2 c3 carries_trans by blast
  have tk: "latestNo c \<in> keysF (draws st3)" using c3 k2 by (auto simp: carries_def)
  obtain out where fo: "finalize H (latestNo c) st3 = Inr out"
    and so: "set (draws_written out) = set (draws st3)"
    and ho: "health (freq_written out) = hl st3"
    and lo: "last_elem (draws_written out) = Some (lastDraw (freq_written out))"
    and mx: "\<forall>d\<in>set (draws_written out). js_le (drwNo d) (drwNo (lastDraw (freq_written out)))"
    and nb: "\<not> js_lt (drwNo (lastDraw (freq_written out))) (latestNo c)"
    using finalize_returns[OF asc3 tk] by blast
  have lenne: "length ?rs \<noteq> 0" using ne by simp
  have m: "main H W = Some (Inr out)"
    unfolding main_def Let_def
    unfolding h_def[symmetric]
    unfolding if_not_P[OF lenne] pc sum.case
    unfolding h1_def[symmetric] h2_def[symmetric] st_def[symmetric]
    unfolding f1 option.case sum.case st2_def[symmetric] v3 fo ..
  have keys: "keysF (draws st) \<union> {latestNo c} \<subseteq> drwNo ` set (draws_written out)"
    using c13 tk so keysF_ascending[OF asc3] by (auto simp: carries_def)
  have qo: "quiet (health (freq_written out))" using q c13 ho by (simp add: carries_def)
  have lc: "latestConsensus (health (freq_written out)) = Some c"
    using c13 ho lcs by (simp add: carries_def)
  have c1_3: "carries st1 st3" using c2 c3 carries_trans by blast
  have k1: "keysF (draws st1) \<subseteq> drwNo ` set (draws_written out)"
    using c1_3 so keysF_ascending[OF asc3] by (auto simp: carries_def)
  have r1: "set (reasons (hl st1)) \<subseteq> set (reasons (health (freq_written out)))"
    using c1_3 ho by (simp add: carries_def)
  have s1: "status (hl st1) = Degraded \<longrightarrow> status (health (freq_written out)) = Degraded"
    using c1_3 ho by (simp add: carries_def)
  show ?thesis
    by (intro exI[of _ c] exI[of _ st] exI[of _ out] exI[of _ h2] exI[of _ st1] conjI)
       (rule pc fc st_def fr f1 k1 r1 s1 m keys qo lc lo mx nb)+
qed

lemma main_online:
  assumes wf: "wf_world W" and ne: "results (fetchLatestAllSources H W) \<noteq> []"
  shows "\<exists>c st out h. pickConsensusLatest H (results (fetchLatestAllSources H W)) = Inr c \<and>
      isFinite (latestNo c) \<and>
      st = choose_strategy H W (ledger_file W) (lastNoOf (ledger_file W)) c h \<and>
      main H W = Some (Inr out) \<and>
      keysF (draws st) \<union> {latestNo c} \<subseteq> drwNo ` set (draws_written out) \<and>
      quiet (health (freq_written out)) \<and>
      latestConsensus (health (freq_written out)) = Some c \<and>
      last_elem (draws_written out) = Some (lastDraw (freq_written out)) \<and>
      (\<forall>d\<in>set (draws_written out). js_le (drwNo d) (drwNo (lastDraw (freq_written out)))) \<and>
      \<not> js_lt (drwNo (lastDraw (freq_written out))) (latestNo c)"
  using main_online_fill[OF assms] by blast

subsection \<open>Runs as a whole\<close>

lemma main_offline:
  assumes "results (fetchLatestAllSources H W) = []"
  shows "(ledger_file W = [] \<longrightarrow> main H W = Some (Inl NoSourcesNoCache)) \<and>
         (ledger_file W \<noteq> [] \<longrightarrow>
            (\<exists>out. main H W = Some (Inr out) \<and>
               set (draws_written out) = set (ledger_file W) \<and>
               reasons (health (freq_written out)) = [latest_unavailable_all_sources_using_local_cache] \<and>
               latestConsensus (health (freq_written out)) = None))"
proof (cases "ledger_file W = []")
  case True
  then show ?thesis using assms by (simp add: main_def Let_def)
next
  case False
  let ?ds = "array_sort by_drwNo (ledger_file W)"
  have "?ds \<noteq> []" using False by (simp add: array_sort_Nil_iff)
  then have le: "last_elem ?ds = Some (last ?ds)" by (rule last_elem_Some)
  show ?thesis using assms False le
    by (simp add: main_def Let_def local_only_def write_out_def set_array_sort degrade_def health0_def)
qed








subsection \<open>The incremental fill\<close>

lemma upto_numbers_Nil: "b < a \<Longrightarrow> upto_numbers a b = []"
proof -
  assume "b < a"
  then have "b - a < 0" by simp
  then have "\<lfloor>b - a\<rfloor> < 0" by (simp add: floor_less_iff)
  then have "nat (\<lfloor>b - a\<rfloor> + 1) = 0" by linarith
  then show ?thesis unfolding upto_numbers_def by simp
qed

lemma upto_numbers_Cons: "a \<le> b \<Longrightarrow> upto_numbers a b = Fin a # upto_numbers (a + 1) b"
proof -
  assume le: "a \<le> b"
  then have nn: "0 \<le> \<lfloor>b - a\<rfloor>" by simp
  have fl: "\<lfloor>b - (a + 1)\<rfloor> = \<lfloor>b - a\<rfloor> - 1"
  proof -
    have "b - (a + 1) = (b - a) - 1" by simp
    then show ?thesis by (simp only: floor_diff_one)
  qed
  have n: "nat (\<lfloor>b - a\<rfloor> + 1) = Suc (nat (\<lfloor>b - (a + 1)\<rfloor> + 1))"
    using nn by (simp add: fl nat_add_distrib)
  have "map (\<lambda>i. Fin (a + of_nat i)) [0..<Suc m] = Fin a # map (\<lambda>i. Fin (a + 1 + of_nat i)) [0..<m]" for m
    by (simp add: upt_conv_Cons map_Suc_upt[symmetric] add.assoc add.commute[of 1] del: upt_Suc)
  then show ?thesis unfolding upto_numbers_def n by simp
qed

lemma fill_loop_eq:
  "for_upto (fill_body H W) (Fin a) (Fin b) st = Some (Inr (fill_result H W (upto_numbers a b) st))"
proof -
  have "\<And>a st. b - a < of_nat k \<Longrightarrow>
      for_upto (fill_body H W) (Fin a) (Fin b) st = Some (Inr (fill_result H W (upto_numbers a b) st))" for k
  proof (induction k)
    case 0
    then have "b < a" by simp
    then show ?case by (subst for_upto.simps) (simp add: js_le_def upto_numbers_Nil)
  next
    case (Suc k)
    show ?case
    proof (cases "a \<le> b")
      case False
      then show ?thesis by (subst for_upto.simps) (simp add: js_le_def upto_numbers_Nil)
    next
      case True
      have ih: "for_upto (fill_body H W) (Fin (a + 1)) (Fin b) s
            = Some (Inr (fill_result H W (upto_numbers (a + 1) b) s))" for s
        using Suc.prems by (intro Suc.IH) simp
      show ?thesis
        using True
        by (subst for_upto.simps)
           (simp add: js_le_def upto_numbers_Cons fill_body_def ih split: sum.splits)
    qed
  qed
  moreover obtain k :: nat where "b - a < of_nat k" using reals_Archimedean2 by blast
  ultimately show ?thesis by blast
qed

lemma fill_result_draws:
  "draws (fill_result H W ns st) =
     foldl mergeByNo (draws st) (map (fetched_draw H W) (takeWhile (fetch_ok H W) ns))"
  by (induction ns arbitrary: st) (auto simp: fetch_ok_def fetched_draw_def split: sum.splits)

lemma fill_result_hl:
  "hl (fill_result H W ns st) =
     (case dropWhile (fetch_ok H W) ns of [] \<Rightarrow> hl st | n # rest \<Rightarrow> stopped_at n (hl st))"
proof (induction ns arbitrary: st)
  case Nil
  then show ?case by simp
next
  case (Cons n ns)
  show ?case
  proof (cases "fetchDrawWithFallback H (draw_json W) n")
    case (Inl e)
    then have "\<not> fetch_ok H W n" by (simp add: fetch_ok_def)
    then show ?thesis using Inl by (simp add: stopped_at_def)
  next
    case (Inr got)
    then have "fetch_ok H W n" by (simp add: fetch_ok_def)
    then show ?thesis using Inr Cons.IH[of "st\<lparr>draws := mergeByNo (draws st) [draw got]\<rparr>"]
      by (simp cong: list.case_cong)
  qed
qed

lemma try_each_cong:
  "(\<And>src. src \<in> set srcs \<Longrightarrow> f src = g src) \<Longrightarrow> try_each f srcs e = try_each g srcs e"
  by (induction srcs arbitrary: e) (auto split: sum.splits)

lemma fetchDraw_cong:
  "(\<And>src. net' src n = net src n) \<Longrightarrow> fetchDrawWithFallback H net' n = fetchDrawWithFallback H net n"
  by (simp add: fetchDrawWithFallback_def tryDrawFromSource_def)

lemma fill_result_cong:
  assumes "\<And>src n. n \<in> set (take (Suc (length (takeWhile (fetch_ok H W) ns))) ns)
              \<Longrightarrow> draw_json W' src n = draw_json W src n"
  shows "fill_result H W' ns st = fill_result H W ns st"
  using assms
proof (induction ns arbitrary: st)
  case Nil
  then show ?case by simp
next
  case (Cons n ns)
  have eq: "fetchDrawWithFallback H (draw_json W') n = fetchDrawWithFallback H (draw_json W) n"
    by (rule fetchDraw_cong) (simp add: Cons.prems)
  show ?case
  proof (cases "fetchDrawWithFallback H (draw_json W) n")
    case (Inl e)
    then show ?thesis using eq by simp
  next
    case (Inr got)
    then have ok: "fetch_ok H W n" by (simp add: fetch_ok_def)
    have "fill_result H W' ns s = fill_result H W ns s" for s
      by (rule Cons.IH) (use Cons.prems ok in auto)
    then show ?thesis using eq Inr by simp
  qed
qed

lemma try_each_find:
  "try_each f srcs e =
     (case find (\<lambda>src. \<not> isl (f src)) srcs of
        Some src \<Rightarrow> Inr (projr (f src))
      | None \<Rightarrow> Inl (if srcs = [] then e else Some (projl (f (last srcs)))))"
  by (induction srcs arbitrary: e) (auto split: sum.splits option.splits)

lemma fetchDraw_priority:
  "fetchDrawWithFallback H net n =
     (case find (\<lambda>src. \<not> isl (tryDrawFromSource H net src n)) SOURCES of
        Some src \<Rightarrow> tryDrawFromSource H net src n
      | None \<Rightarrow> tryDrawFromSource H net (last SOURCES) n)"
proof -
  let ?f = "\<lambda>src. tryDrawFromSource H net src n"
  have ne: "SOURCES \<noteq> []" by (simp add: SOURCES_def)
  show ?thesis
  proof (cases "find (\<lambda>src. \<not> isl (?f src)) SOURCES")
    case None
    then have "\<forall>src\<in>set SOURCES. isl (?f src)" by (simp add: find_None_iff)
    then have "isl (?f (last SOURCES))" using ne last_in_set by blast
    then obtain e where e: "?f (last SOURCES) = Inl e" by (cases "?f (last SOURCES)") auto
    have "try_each ?f SOURCES None = Inl (Some e)"
      using None ne e by (simp add: try_each_find)
    then show ?thesis using None e by (simp add: fetchDrawWithFallback_def)
  next
    case (Some src)
    then have "\<not> isl (?f src)" by (auto simp: find_Some_iff)
    then obtain r where r: "?f src = Inr r" by (cases "?f src") auto
    have "try_each ?f SOURCES None = Inr r"
      using Some r by (simp add: try_each_find)
    then show ?thesis using Some r by (simp add: fetchDrawWithFallback_def)
  qed
qed

lemma find_Some_mem: "find P xs = Some x \<Longrightarrow> x \<in> set xs"
  by (induction xs) (auto split: if_splits)

lemma keysF_foldl_merge: "keysF (foldl mergeByNo L Xs) = keysF L \<union> \<Union> (keysF ` set Xs)"
  by (induction Xs arbitrary: L) (auto simp: keysF_mergeByNo)

lemma find_no_foldl_other:
  assumes "\<forall>X\<in>set Xs. k \<notin> drwNo ` set X" and "ascending_no L"
  shows "find_no (foldl mergeByNo L Xs) k = find_no L k"
  using assms
proof (induction Xs arbitrary: L)
  case Nil
  then show ?case by simp
next
  case (Cons X Xs)
  have "last_no X k = None" using Cons.prems(1) by (simp add: last_no_None)
  then have "find_no (mergeByNo L X) k = find_no L k"
    using last_no_ascending[OF Cons.prems(2)] by (simp add: find_no_mergeByNo)
  moreover have "find_no (foldl mergeByNo (mergeByNo L X) Xs) k = find_no (mergeByNo L X) k"
    using Cons.prems(1) by (intro Cons.IH) (auto simp: ascending_mergeByNo)
  ultimately show ?case by simp
qed

lemma foldl_merge_keeps_records:
  assumes "distinct (map drwNo ds)" "\<forall>d\<in>set ds. isFinite (drwNo d)"
  shows "set ds \<subseteq> set (foldl mergeByNo L (map (\<lambda>d. [d]) ds))"
  using assms
proof (induction ds arbitrary: L)
  case Nil
  then show ?case by simp
next
  case (Cons d ds)
  have fd: "isFinite (drwNo d)" using Cons.prems(2) by simp
  have "find_no (mergeByNo L [d]) (drwNo d) = Some d"
    using fd by (simp add: find_no_mergeByNo last_no_def)
  moreover have "find_no (foldl mergeByNo (mergeByNo L [d]) (map (\<lambda>d. [d]) ds)) (drwNo d)
      = find_no (mergeByNo L [d]) (drwNo d)"
    using Cons.prems(1) by (intro find_no_foldl_other) (auto simp: ascending_mergeByNo)
  ultimately have "find_no (foldl mergeByNo (mergeByNo L [d]) (map (\<lambda>d. [d]) ds)) (drwNo d) = Some d"
    by simp
  then have "d \<in> set (foldl mergeByNo (mergeByNo L [d]) (map (\<lambda>d. [d]) ds))"
    unfolding find_no_def by (rule find_Some_mem)
  moreover have "set ds \<subseteq> set (foldl mergeByNo (mergeByNo L [d]) (map (\<lambda>d. [d]) ds))"
    using Cons.prems by (intro Cons.IH) auto
  ultimately show ?case by simp
qed

lemma incremental_fill_eq:
  assumes "lastNoOf (draws st) = Fin cur"
  shows "incremental_fill H W (Fin tgt) st
           = Some (Inr (fill_result H W (upto_numbers (cur + 1) tgt) st))"
proof (cases "cur < tgt")
  case True
  then show ?thesis by (simp add: incremental_fill_def assms fill_loop_eq)
next
  case False
  then have "tgt < cur + 1" by simp
  then have "upto_numbers (cur + 1) tgt = []" by (rule upto_numbers_Nil)
  then show ?thesis using False by (simp add: incremental_fill_def assms)
qed

lemma fetched_draw_ok:
  "fetch_ok H W n \<Longrightarrow> \<exists>d. fetched_draw H W n = [d] \<and> isFinite (drwNo d)"
  by (auto simp: fetch_ok_def fetched_draw_def split: sum.splits dest: fetchDraw_finite)

lemma fetched_singletons:
  "\<forall>n\<in>set xs. fetch_ok H W n \<Longrightarrow>
     map (fetched_draw H W) xs = map (\<lambda>d. [d]) (concat (map (fetched_draw H W) xs)) \<and>
     (\<forall>d\<in>set (concat (map (fetched_draw H W) xs)). isFinite (drwNo d))"
proof (induction xs)
  case Nil
  then show ?case by simp
next
  case (Cons n xs)
  obtain d where "fetched_draw H W n = [d]" "isFinite (drwNo d)"
    using fetched_draw_ok[of H W n] Cons.prems by auto
  then show ?case using Cons by auto
qed

lemma fill_failure_all_sources:
  assumes "\<not> fetch_ok H W n"
  shows "\<forall>src\<in>set SOURCES. isl (tryDrawFromSource H (draw_json W) src n)"
proof (cases "find (\<lambda>src. \<not> isl (tryDrawFromSource H (draw_json W) src n)) SOURCES")
  case None
  then show ?thesis by (simp add: find_None_iff)
next
  case (Some src)
  then have "\<not> isl (tryDrawFromSource H (draw_json W) src n)" by (auto simp: find_Some_iff)
  then have "\<not> isl (fetchDrawWithFallback H (draw_json W) n)"
    using Some by (simp add: fetchDraw_priority)
  then show ?thesis using assms by (simp add: fetch_ok_def isl_def split: sum.splits)
qed

lemma fill_stop_props:
  assumes dw: "dropWhile (fetch_ok H W) ns = n # rest"
  shows "(\<forall>src\<in>set SOURCES. isl (tryDrawFromSource H (draw_json W) src n)) \<and>
     status (hl (fill_result H W ns st)) = Degraded \<and>
     incremental_fetch_failed_at n \<in> set (reasons (hl (fill_result H W ns st)))"
proof -
  have "\<not> fetch_ok H W (hd (dropWhile (fetch_ok H W) ns))"
    by (rule hd_dropWhile) (simp add: dw)
  then have nf: "\<not> fetch_ok H W n" by (simp add: dw)
  have hs: "hl (fill_result H W ns st) = stopped_at n (hl st)"
    by (simp add: fill_result_hl dw)
  have a: "status (stopped_at n (hl st)) = Degraded"
    by (simp add: stopped_at_def degrade_def)
  have b: "incremental_fetch_failed_at n \<in> set (reasons (stopped_at n (hl st)))"
    by (simp add: stopped_at_def degrade_def)
  show ?thesis unfolding hs using fill_failure_all_sources[OF nf] a b by (intro conjI)
qed

lemma fill_result_keys:
  "keysF (draws (fill_result H W ns st)) =
     keysF (draws st) \<union> drwNo ` set (concat (map (fetched_draw H W) (takeWhile (fetch_ok H W) ns)))"
proof -
  define ok where "ok = takeWhile (fetch_ok H W) ns"
  define recs where "recs = concat (map (fetched_draw H W) ok)"
  have allok: "\<forall>n\<in>set ok. fetch_ok H W n" unfolding ok_def by (auto dest: set_takeWhileD)
  note sg = fetched_singletons[OF allok, folded recs_def]
  have sg1: "map (fetched_draw H W) ok = map (\<lambda>d. [d]) recs" using sg by (rule conjunct1)
  have recfin: "\<forall>d\<in>set recs. isFinite (drwNo d)" using sg by (rule conjunct2)
  have "draws (fill_result H W ns st) = foldl mergeByNo (draws st) (map (fetched_draw H W) ok)"
    unfolding ok_def by (rule fill_result_draws)
  then have d1: "draws (fill_result H W ns st) = foldl mergeByNo (draws st) (map (\<lambda>d. [d]) recs)"
    unfolding sg1 .
  have u: "\<Union> (keysF ` set (map (\<lambda>d. [d]) recs)) = drwNo ` set recs"
    using recfin by (auto simp: keysF_def)
  have "keysF (draws (fill_result H W ns st)) = keysF (draws st) \<union> \<Union> (keysF ` set (map (\<lambda>d. [d]) recs))"
    unfolding d1 by (rule keysF_foldl_merge)
  then show ?thesis unfolding u unfolding recs_def ok_def .
qed

lemma fill_result_records:
  assumes "distinct (map drwNo (concat (map (fetched_draw H W) (takeWhile (fetch_ok H W) ns))))"
  shows "set (concat (map (fetched_draw H W) (takeWhile (fetch_ok H W) ns)))
           \<subseteq> set (draws (fill_result H W ns st))"
proof -
  define ok where "ok = takeWhile (fetch_ok H W) ns"
  define recs where "recs = concat (map (fetched_draw H W) ok)"
  have allok: "\<forall>n\<in>set ok. fetch_ok H W n" unfolding ok_def by (auto dest: set_takeWhileD)
  note sg = fetched_singletons[OF allok, folded recs_def]
  have sg1: "map (fetched_draw H W) ok = map (\<lambda>d. [d]) recs" using sg by (rule conjunct1)
  have recfin: "\<forall>d\<in>set recs. isFinite (drwNo d)" using sg by (rule conjunct2)
  have "draws (fill_result H W ns st) = foldl mergeByNo (draws st) (map (fetched_draw H W) ok)"
    unfolding ok_def by (rule fill_result_draws)
  then have d1: "draws (fill_result H W ns st) = foldl mergeByNo (draws st) (map (\<lambda>d. [d]) recs)"
    unfolding sg1 .
  have dis: "distinct (map drwNo recs)" using assms unfolding recs_def ok_def .
  have "set recs \<subseteq> set (draws (fill_result H W ns st))"
    unfolding d1 using dis recfin by (rule foldl_merge_keeps_records)
  then show ?thesis unfolding recs_def ok_def .
qed



end
